theory Spec2Isabelle
  imports Main
begin

section \<open>The multiplexed-websocket relay (internal/relay/mwss.go)\<close>

text \<open>
  The file has a client half (the session pool of \<open>mwssTransporter.Dial\<close>) and a
  server half (\<open>RunLocalMWSSServer\<close>, \<open>MWSSServer.mux\<close>, \<open>MWSSServer.Accept\<close>).
  Calls into the network, the websocket library and the stream multiplexer are
  external: their outcomes enter each function as explicit arguments.
\<close>

subsection \<open>Errors\<close>

text \<open>
  A Go \<open>error\<close> value. The accept loop asks two things of it: whether it implements
  \<open>net.Error\<close> (the type assertion \<open>e.(net.Error)\<close>) and, if so, what
  \<open>Temporary()\<close> answers. The string is the message and tells errors apart.
\<close>

datatype error = NetError bool string | OtherError string

fun isTemporaryNetError :: "error \<Rightarrow> bool" where
  "isTemporaryNetError (NetError temporary _) = temporary"
| "isTemporaryNetError (OtherError _) = False"

subsection \<open>The accept loop of RunLocalMWSSServer\<close>

text \<open>
  \<open>time.Duration\<close> is an \<open>int64\<close> count of nanoseconds; \<open>tempDelay *= 2\<close> wraps
  around in two's complement.
\<close>

definition wrap64 :: "int \<Rightarrow> int" where
  "wrap64 x = (x + 2 ^ 63) mod 2 ^ 64 - 2 ^ 63"

definition Millisecond :: int where
  "Millisecond = 1000000"

definition Second :: int where
  "Second = 1000000000"

text \<open>Lines 215 to 222: the delay slept after one more temporary error.\<close>

definition nextDelay :: "int \<Rightarrow> int" where
  "nextDelay tempDelay =
     (let d = (if tempDelay = 0 then wrap64 (5 * Millisecond) else wrap64 (tempDelay * 2));
          mx = wrap64 (1 * Second)
      in if d > mx then mx else d)"

text \<open>
  What the loop has done so far: \<open>returned\<close> is the error handed back to the caller
  (\<open>None\<close> while the loop is still running, waiting in \<open>s.Accept()\<close>),
  \<open>slept\<close> the arguments of the \<open>time.Sleep\<close> calls in order, \<open>handled\<close> the
  connections given to \<open>handleMWSSConnToTcp\<close> (a nil connection is \<open>None\<close>) and
  \<open>tempDelay\<close> the current value of the loop variable.
\<close>

record 'c loopTrace =
  returned :: "error option"
  slept :: "int list"
  handled :: "'c option list"
  tempDelay :: int

text \<open>
  The \<open>for\<close> loop of lines 211 to 232, run on the successive results
  \<open>(conn, e)\<close> of \<open>s.Accept()\<close>. The loop has no exit but \<open>return e\<close>; on a
  finite list of results it is still running when the list is used up.
\<close>

fun acceptLoop :: "int \<Rightarrow> ('c option \<times> error option) list \<Rightarrow> 'c loopTrace" where
  "acceptLoop d [] = \<lparr>returned = None, slept = [], handled = [], tempDelay = d\<rparr>"
| "acceptLoop d ((conn, Some e) # rest) =
     (if isTemporaryNetError e
      then (let d' = nextDelay d; t = acceptLoop d' rest in t\<lparr>slept := d' # slept t\<rparr>)
      else \<lparr>returned = Some e, slept = [], handled = [], tempDelay = d\<rparr>)"
| "acceptLoop d ((conn, None) # rest) =
     (let t = acceptLoop 0 rest in t\<lparr>handled := conn # handled t\<rparr>)"

text \<open>
  \<open>RunLocalMWSSServer\<close>: \<open>net.Listen\<close> may fail, and its error is returned before
  the loop starts (lines 198 to 201); otherwise the loop starts with a zero delay.
\<close>

definition RunLocalMWSSServer ::
  "error option \<Rightarrow> ('c option \<times> error option) list \<Rightarrow> 'c loopTrace" where
  "RunLocalMWSSServer listenErr results =
     (case listenErr of
        Some err \<Rightarrow> \<lparr>returned = Some err, slept = [], handled = [], tempDelay = 0\<rparr>
      | None \<Rightarrow> acceptLoop 0 results)"

text \<open>An accept result that makes the loop go round again.\<close>

fun keepsRunning :: "'c option \<times> error option \<Rightarrow> bool" where
  "keepsRunning (conn, None) = True"
| "keepsRunning (conn, Some e) = isTemporaryNetError e"

text \<open>An accept result that is a transient error.\<close>

fun isTransient :: "'c option \<times> error option \<Rightarrow> bool" where
  "isTransient (conn, None) = False"
| "isTransient (conn, Some e) = isTemporaryNetError e"

text \<open>The delays the claim predicts: base, twice the base, ..., each capped.\<close>

definition cappedDoubling :: "nat \<Rightarrow> int" where
  "cappedDoubling i = min (5 * Millisecond * 2 ^ i) Second"

subsection \<open>Session wrapper\<close>

text \<open>
  What this file observes of a \<open>*smux.Session\<close>: the answers of \<open>IsClosed()\<close> and
  \<open>NumStreams()\<close>. The multiplexer itself is an external library.
\<close>

record smuxSession =
  sessClosed :: bool
  numStreams :: int

text \<open>
  \<open>muxSession\<close> (lines 33 to 37). Connections are numbered; the multiplexer handle
  \<open>session\<close> is \<open>None\<close> when the Go pointer is nil.
\<close>

record muxSession =
  conn :: nat
  session :: "smuxSession option"
  maxStreamCnt :: int

text \<open>
  A \<open>*smux.Stream\<close>: the session it was opened on or accepted from, and its number.
  \<open>muxStreamConn\<close> (lines 16 to 19) pairs it with the session's connection.
\<close>

record smuxStream =
  sess :: nat
  streamId :: nat

record muxStreamConn =
  Conn :: nat
  stream :: smuxStream

definition IsClosed :: "muxSession \<Rightarrow> bool" where
  "IsClosed ms = (case session ms of None \<Rightarrow> True | Some sx \<Rightarrow> sessClosed sx)"

definition NumStreams :: "muxSession \<Rightarrow> int" where
  "NumStreams ms = (case session ms of Some sx \<Rightarrow> numStreams sx | None \<Rightarrow> 0)"

definition Close :: "muxSession \<Rightarrow> muxSession" where
  "Close ms = (case session ms of None \<Rightarrow> ms
               | Some sx \<Rightarrow> ms\<lparr>session := Some (sx\<lparr>sessClosed := True\<rparr>)\<rparr>)"

subsection \<open>Memory: slices, backing arrays, session objects\<close>

text \<open>
  \<open>tr.sessions\<close> is a \<open>map[string][]*muxSession\<close>. A Go slice is a header (array,
  length, capacity) over a backing array that other headers may share, and \<open>Dial\<close>
  writes through a local copy of the header, so arrays live in a store of their own.
  Pointers are addresses; address 0 is nil.
\<close>

record slice =
  ptr :: nat
  len :: nat
  cap :: nat

definition nil :: nat where
  "nil = 0"

definition nilSlice :: slice where
  "nilSlice = \<lparr>ptr = nil, len = 0, cap = 0\<rparr>"

record world =
  sessions :: "string \<Rightarrow> slice option"
  arrays :: "nat \<Rightarrow> nat list"
  objs :: "nat \<Rightarrow> muxSession option"
  nextArray :: nat
  nextObj :: nat

text \<open>\<open>NewMWSSTransporter\<close>: an empty map; nothing allocated yet.\<close>

definition NewMWSSTransporter :: world where
  "NewMWSSTransporter =
     \<lparr>sessions = (\<lambda>addr. None), arrays = (\<lambda>a. []), objs = (\<lambda>p. None),
      nextArray = 1, nextObj = 1\<rparr>"

text \<open>The elements a slice header shows, and the collection stored for an address.\<close>

definition elems :: "world \<Rightarrow> slice \<Rightarrow> nat list" where
  "elems w sl = take (len sl) (arrays w (ptr sl))"

definition pool :: "world \<Rightarrow> string \<Rightarrow> nat list" where
  "pool w addr = (case sessions w addr of None \<Rightarrow> [] | Some sl \<Rightarrow> elems w sl)"

text \<open>Following a pointer; nil and unallocated addresses have no object.\<close>

definition deref :: "world \<Rightarrow> nat \<Rightarrow> muxSession option" where
  "deref w p = (if p = nil then None else objs w p)"

definition IsClosedAt :: "world \<Rightarrow> nat \<Rightarrow> bool" where
  "IsClosedAt w p = (case deref w p of None \<Rightarrow> True | Some ms \<Rightarrow> IsClosed ms)"

definition NumStreamsAt :: "world \<Rightarrow> nat \<Rightarrow> int" where
  "NumStreamsAt w p = (case deref w p of None \<Rightarrow> 0 | Some ms \<Rightarrow> NumStreams ms)"

definition MaxStreamsAt :: "world \<Rightarrow> nat \<Rightarrow> int" where
  "MaxStreamsAt w p = (case deref w p of None \<Rightarrow> 0 | Some ms \<Rightarrow> maxStreamCnt ms)"

definition CloseAt :: "world \<Rightarrow> nat \<Rightarrow> world" where
  "CloseAt w p = (case deref w p of None \<Rightarrow> w
                  | Some ms \<Rightarrow> w\<lparr>objs := (objs w)(p := Some (Close ms))\<rparr>)"

text \<open>The test of line 96, negated: the session has room for one more stream.\<close>

definition underCapacity :: "world \<Rightarrow> nat \<Rightarrow> bool" where
  "underCapacity w p =
     (case deref w p of None \<Rightarrow> False
      | Some ms \<Rightarrow> (case session ms of None \<Rightarrow> False
                   | Some sx \<Rightarrow> \<not> numStreams sx \<ge> maxStreamCnt ms))"

subsection \<open>The client pool: Dial\<close>

text \<open>
  How a call ends: with a value, with an error returned to the caller, or in a panic
  (a nil pointer dereference).
\<close>

datatype 'a outcome = Returns 'a | Fails error | Panics

text \<open>
  What the outside world answers during one call of \<open>Dial\<close>: \<open>url.Parse(addr)\<close>,
  \<open>net.DialTimeout\<close> (an error or the connection), the websocket dialer's
  \<open>d.Dial\<close> (an error or the websocket connection), \<open>smux.Client\<close>,
  \<open>OpenStream\<close> (an error or the number of the new stream), and the capacity the Go
  runtime gives a backing array when \<open>append\<close> has to allocate one.
\<close>

record dialEnv =
  urlParse :: "error option"
  netDial :: "error + nat"
  wsDial :: "error + nat"
  smuxClient :: "error option"
  openStream :: "error + nat"
  growCap :: nat

text \<open>
  \<open>GetConn\<close> (lines 39 to 45) on the session at \<open>p\<close>. \<open>session.session.OpenStream()\<close>
  dereferences both pointers. An opened stream counts among the session's streams.
\<close>

definition GetConn :: "dialEnv \<Rightarrow> world \<Rightarrow> nat \<Rightarrow> muxStreamConn outcome \<times> world" where
  "GetConn env w p =
     (case deref w p of None \<Rightarrow> (Panics, w)
      | Some ms \<Rightarrow>
         (case session ms of None \<Rightarrow> (Panics, w)
          | Some sx \<Rightarrow>
             (case openStream env of Inl err \<Rightarrow> (Fails err, w)
              | Inr n \<Rightarrow>
                 (Returns \<lparr>Conn = conn ms, stream = \<lparr>sess = p, streamId = n\<rparr>\<rparr>,
                  w\<lparr>objs := (objs w)(p := Some (ms\<lparr>session :=
                         Some (sx\<lparr>numStreams := numStreams sx + 1\<rparr>)\<rparr>))\<rparr>))))"

text \<open>The memory after a stream has been opened on the session \<open>ms\<close> at \<open>p\<close>.\<close>

definition opened :: "world \<Rightarrow> nat \<Rightarrow> muxSession \<Rightarrow> smuxSession \<Rightarrow> world" where
  "opened w p ms sx =
     w\<lparr>objs := (objs w)(p := Some (ms\<lparr>session := Some (sx\<lparr>numStreams := numStreams sx + 1\<rparr>)\<rparr>))\<rparr>"

text \<open>
  The scan of lines 95 to 103 over the elements of the slice, with the loop's two
  variables \<open>session\<close> (here \<open>sel\<close>) and \<open>ok\<close>. \<open>s.session.NumStreams()\<close> calls the
  multiplexer directly: a nil \<open>s\<close> or a nil handle panics (\<open>None\<close>).
\<close>

fun scanLoop :: "world \<Rightarrow> nat list \<Rightarrow> nat \<Rightarrow> bool \<Rightarrow> (nat \<times> bool) option" where
  "scanLoop w [] sel ok = Some (sel, ok)"
| "scanLoop w (s # rest) sel ok =
     (case deref w s of None \<Rightarrow> None
      | Some ms \<Rightarrow>
         (case session ms of None \<Rightarrow> None
          | Some sx \<Rightarrow>
             if numStreams sx \<ge> maxStreamCnt ms then scanLoop w rest sel False
             else Some (s, True)))"

text \<open>Lines 107 to 115: the index of the first element that is the pointer \<open>p\<close>.\<close>

fun indexOf :: "nat \<Rightarrow> nat list \<Rightarrow> nat option" where
  "indexOf p [] = None"
| "indexOf p (s # rest) = (if s = p then Some 0 else map_option Suc (indexOf p rest))"

text \<open>
  Lines 116 to 119: the last element is written over the closed one, in the backing
  array, and the local header gets shorter by one.
\<close>

definition evict :: "world \<Rightarrow> slice \<Rightarrow> nat \<Rightarrow> world \<times> slice" where
  "evict w sl p =
     (case indexOf p (elems w sl) of None \<Rightarrow> (w, sl)
      | Some closedIdx \<Rightarrow>
         (let a = arrays w (ptr sl)
          in (w\<lparr>arrays := (arrays w)(ptr sl := a[closedIdx := a ! (len sl - 1)])\<rparr>,
              sl\<lparr>len := len sl - 1\<rparr>)))"

text \<open>
  The same lines on the elements the header shows: the first entry that is \<open>p\<close> is
  overwritten by the last entry and the last slot is dropped.
\<close>

definition swapRemove :: "nat \<Rightarrow> nat list \<Rightarrow> nat list" where
  "swapRemove p xs =
     (case indexOf p xs of None \<Rightarrow> xs | Some closedIdx \<Rightarrow> butlast (xs[closedIdx := last xs]))"

text \<open>
  Lines 91 to 120: the map lookup, the scan and the eviction. The result is the
  selected pointer, \<open>ok\<close>, the local slice header and the memory.
\<close>

definition selectSession :: "world \<Rightarrow> string \<Rightarrow> (nat \<times> bool \<times> slice \<times> world) option" where
  "selectSession w addr =
     (let (sl, ok) = (case sessions w addr of None \<Rightarrow> (nilSlice, False)
                      | Some sl \<Rightarrow> (sl, True))
      in case scanLoop w (elems w sl) nil ok of None \<Rightarrow> None
         | Some (sel, ok') \<Rightarrow>
            if sel \<noteq> nil \<and> IsClosedAt w sel
            then (let (w', sl') = evict w sl sel in Some (sel, False, sl', w'))
            else Some (sel, ok', sl, w))"

text \<open>
  \<open>initSession\<close> (lines 151 to 175): the websocket handshake, then the multiplexer
  client. The new object takes the next free address; its multiplexer is open and has
  no streams. \<open>MaxMWSSStreamCnt\<close> is a constant of the package declared in another
  file: it is the parameter \<open>maxCnt\<close>.
\<close>

definition initSession :: "int \<Rightarrow> dialEnv \<Rightarrow> world \<Rightarrow> (error + nat) \<times> world" where
  "initSession maxCnt env w =
     (case urlParse env of Some err \<Rightarrow> (Inl err, w)
      | None \<Rightarrow>
         (case wsDial env of Inl err \<Rightarrow> (Inl err, w)
          | Inr wsc \<Rightarrow>
             (case smuxClient env of Some err \<Rightarrow> (Inl err, w)
              | None \<Rightarrow>
                 (Inr (nextObj w),
                  w\<lparr>objs := (objs w)(nextObj w := Some
                        \<lparr>conn = wsc, session = Some \<lparr>sessClosed = False, numStreams = 0\<rparr>,
                         maxStreamCnt = maxCnt\<rparr>),
                    nextObj := nextObj w + 1\<rparr>))))"

text \<open>The session object \<open>initSession\<close> builds, and the memory once it is allocated.\<close>

definition newSession :: "int \<Rightarrow> dialEnv \<Rightarrow> muxSession" where
  "newSession maxCnt env =
     \<lparr>conn = projr (wsDial env), session = Some \<lparr>sessClosed = False, numStreams = 0\<rparr>,
      maxStreamCnt = maxCnt\<rparr>"

definition alloc :: "int \<Rightarrow> dialEnv \<Rightarrow> world \<Rightarrow> world" where
  "alloc maxCnt env w =
     w\<lparr>objs := (objs w)(nextObj w := Some (newSession maxCnt env)), nextObj := nextObj w + 1\<rparr>"

text \<open>
  Go's \<open>append\<close> of one element: in place when the capacity allows, else into a new
  array that holds a copy. The new capacity is the runtime's choice \<open>newCap\<close>, at least
  the length needed.
\<close>

definition appendSession :: "nat \<Rightarrow> world \<Rightarrow> slice \<Rightarrow> nat \<Rightarrow> world \<times> slice" where
  "appendSession newCap w sl p =
     (if len sl < cap sl
      then (w\<lparr>arrays := (arrays w)(ptr sl := (arrays w (ptr sl))[len sl := p])\<rparr>,
            sl\<lparr>len := len sl + 1\<rparr>)
      else (let c = max newCap (len sl + 1)
            in (w\<lparr>arrays := (arrays w)(nextArray w :=
                      elems w sl @ p # replicate (c - (len sl + 1)) nil),
                  nextArray := nextArray w + 1\<rparr>,
                \<lparr>ptr = nextArray w, len = len sl + 1, cap = c\<rparr>)))"

text \<open>
  Lines 123 to 140: a new session is dialled and appended to the local slice. Every
  failure returns before the append. (The deadline calls and the \<open>conn.Close()\<close> of
  the TCP connection after a failed \<open>initSession\<close> act on the connection only, which
  the memory does not track.)
\<close>

definition createSession ::
  "int \<Rightarrow> dialEnv \<Rightarrow> world \<Rightarrow> slice \<Rightarrow> (error + nat \<times> slice) \<times> world" where
  "createSession maxCnt env w sl =
     (case urlParse env of Some err \<Rightarrow> (Inl err, w)
      | None \<Rightarrow>
         (case netDial env of Inl err \<Rightarrow> (Inl err, w)
          | Inr c \<Rightarrow>
             (case initSession maxCnt env w of
                (Inl err, w') \<Rightarrow> (Inl err, w')
              | (Inr p, w') \<Rightarrow>
                 (let (w'', sl') = appendSession (growCap env) w' sl p
                  in (Inr (p, sl'), w'')))))"

text \<open>Lines 91 to 140: the session the stream will be opened from.\<close>

definition chooseSession ::
  "int \<Rightarrow> dialEnv \<Rightarrow> world \<Rightarrow> string \<Rightarrow> (nat \<times> slice) outcome \<times> world" where
  "chooseSession maxCnt env w addr =
     (case selectSession w addr of None \<Rightarrow> (Panics, w)
      | Some (sel, ok, sl, w1) \<Rightarrow>
         if \<not> ok
         then (case createSession maxCnt env w1 sl of
                 (Inl err, w2) \<Rightarrow> (Fails err, w2)
               | (Inr (p, sl2), w2) \<Rightarrow> (Returns (p, sl2), w2))
         else (Returns (sel, sl), w1))"

text \<open>
  \<open>Dial\<close> (lines 87 to 149). The map is written only on the last line; every earlier
  return leaves the stored header as it was, over a backing array that may have changed.
\<close>

definition Dial :: "int \<Rightarrow> dialEnv \<Rightarrow> world \<Rightarrow> string \<Rightarrow> muxStreamConn outcome \<times> world" where
  "Dial maxCnt env w addr =
     (case chooseSession maxCnt env w addr of
        (Panics, w1) \<Rightarrow> (Panics, w1)
      | (Fails err, w1) \<Rightarrow> (Fails err, w1)
      | (Returns (p, sl), w1) \<Rightarrow>
         (case GetConn env w1 p of
            (Panics, w2) \<Rightarrow> (Panics, w2)
          | (Fails err, w2) \<Rightarrow> (Fails err, CloseAt w2 p)
          | (Returns cc, w2) \<Rightarrow>
             (Returns cc, w2\<lparr>sessions := (sessions w2)(addr := Some sl)\<rparr>)))"

text \<open>
  Between calls the multiplexers change on their own: streams end, peers go away.
  \<open>multiplexerEvent w p sx\<close> makes \<open>sx\<close> the state of the multiplexer of the session
  at \<open>p\<close>.
\<close>

definition multiplexerEvent :: "world \<Rightarrow> nat \<Rightarrow> smuxSession \<Rightarrow> world" where
  "multiplexerEvent w p sx =
     (case deref w p of None \<Rightarrow> w
      | Some ms \<Rightarrow>
         (case session ms of None \<Rightarrow> w
          | Some old \<Rightarrow> w\<lparr>objs := (objs w)(p := Some (ms\<lparr>session := Some sx\<rparr>))\<rparr>))"

text \<open>The states of the pool that a run of the program can reach.\<close>

inductive reachable :: "int \<Rightarrow> world \<Rightarrow> bool" for maxCnt :: int where
  start: "reachable maxCnt NewMWSSTransporter"
| dial: "reachable maxCnt w \<Longrightarrow> Dial maxCnt env w addr = (r, w') \<Longrightarrow> r \<noteq> Panics
         \<Longrightarrow> reachable maxCnt w'"
| event: "reachable maxCnt w \<Longrightarrow> reachable maxCnt (multiplexerEvent w p sx)"

text \<open>
  What holds of every reachable pool: a pointer in a stored collection is a session
  object with a multiplexer, and a stored header is not empty and lies within its array.
\<close>

definition live :: "world \<Rightarrow> nat \<Rightarrow> bool" where
  "live w p = (p \<noteq> nil \<and> p < nextObj w \<and>
               (case objs w p of None \<Rightarrow> False | Some ms \<Rightarrow> session ms \<noteq> None))"

definition sliceOk :: "world \<Rightarrow> slice \<Rightarrow> bool" where
  "sliceOk w sl = (1 \<le> len sl \<and> len sl \<le> cap sl \<and> cap sl \<le> length (arrays w (ptr sl)) \<and>
                   ptr sl < nextArray w \<and> (\<forall>p\<in>set (elems w sl). live w p))"

definition poolOk :: "world \<Rightarrow> bool" where
  "poolOk w = (nextObj w \<noteq> nil \<and> (\<forall>addr sl. sessions w addr = Some sl \<longrightarrow> sliceOk w sl))"

text \<open>
  The local header of \<open>Dial\<close> may be empty: it starts as the stored header, or as the
  nil slice when the address has no entry yet.
\<close>

definition stored :: "world \<Rightarrow> string \<Rightarrow> slice" where
  "stored w addr = (case sessions w addr of None \<Rightarrow> nilSlice | Some sl \<Rightarrow> sl)"

definition localOk :: "world \<Rightarrow> slice \<Rightarrow> bool" where
  "localOk w sl = (len sl \<le> cap sl \<and> cap sl \<le> length (arrays w (ptr sl)) \<and>
                   (cap sl = 0 \<or> ptr sl < nextArray w) \<and> (\<forall>p\<in>set (elems w sl). live w p))"

text \<open>
  The external steps that make a session succeed (\<open>creates\<close>), and those and the
  opening of the stream (\<open>succeeds\<close>).
\<close>

definition creates :: "dialEnv \<Rightarrow> bool" where
  "creates env = (urlParse env = None \<and> \<not> isl (netDial env) \<and> \<not> isl (wsDial env) \<and>
                  smuxClient env = None)"

definition succeeds :: "dialEnv \<Rightarrow> bool" where
  "succeeds env = (creates env \<and> \<not> isl (openStream env))"

text \<open>
  The selection rule in the words of the specification: the first session that is
  not closed and has fewer streams than its maximum.
\<close>

definition specFirstUsable :: "world \<Rightarrow> nat list \<Rightarrow> nat option" where
  "specFirstUsable w ss = find (\<lambda>p. \<not> IsClosedAt w p \<and> underCapacity w p) ss"

subsection \<open>The server: channels, mux and Accept\<close>

text \<open>
  A buffered Go channel: the queued values, oldest first, the capacity given to
  \<open>make\<close>, and whether \<open>close\<close> has been called.
\<close>

record 'a chan =
  buf :: "'a list"
  capacity :: nat
  chanClosed :: bool

text \<open>
  A send that can proceed at once gives the new channel; \<open>None\<close> is a send that would
  have to wait. A receive that can proceed at once gives the value (\<open>None\<close> is the
  zero value, nil, read from a closed and empty channel) and the new channel; \<open>None\<close>
  is a receive that would have to wait.
\<close>

definition trySend :: "'a chan \<Rightarrow> 'a \<Rightarrow> 'a chan option" where
  "trySend ch x =
     (if length (buf ch) < capacity ch then Some (ch\<lparr>buf := buf ch @ [x]\<rparr>) else None)"

definition tryRecv :: "'a chan \<Rightarrow> ('a option \<times> 'a chan) option" where
  "tryRecv ch =
     (case buf ch of
        x # rest \<Rightarrow> Some (Some x, ch\<lparr>buf := rest\<rparr>)
      | [] \<Rightarrow> if chanClosed ch then Some (None, ch) else None)"

text \<open>
  \<open>MWSSServer\<close> (lines 235 to 241): its two channels, and the stream connections
  that \<open>mux\<close> has closed, in order.
\<close>

record MWSSServer =
  connChan :: "muxStreamConn chan"
  errChan :: "error chan"
  closedConns :: "muxStreamConn list"

text \<open>The server value built in lines 179 to 184.\<close>

definition newMWSSServer :: MWSSServer where
  "newMWSSServer =
     \<lparr>connChan = \<lparr>buf = [], capacity = 1024, chanClosed = False\<rparr>,
      errChan = \<lparr>buf = [], capacity = 1, chanClosed = False\<rparr>,
      closedConns = []\<rparr>"

text \<open>
  Lines 271 to 277: the \<open>select\<close> with a \<open>default\<close> branch. The send is taken when
  it can proceed; otherwise the connection is closed.
\<close>

definition publish :: "MWSSServer \<Rightarrow> muxStreamConn \<Rightarrow> MWSSServer" where
  "publish s cc =
     (case trySend (connChan s) cc of
        Some ch \<Rightarrow> s\<lparr>connChan := ch\<rparr>
      | None \<Rightarrow> s\<lparr>closedConns := closedConns s @ [cc]\<rparr>)"

text \<open>
  The loop of lines 264 to 278 on the successive results of \<open>mux.AcceptStream()\<close>
  for the connection \<open>c\<close>: an error ends it (the deferred \<open>mux.Close()\<close> then
  closes the multiplexer, which the server value does not track). On a finite list of
  results the loop is still waiting in \<open>AcceptStream\<close> when the list is used up.
\<close>

fun muxLoop :: "MWSSServer \<Rightarrow> nat \<Rightarrow> (error + smuxStream) list \<Rightarrow> MWSSServer" where
  "muxLoop s c [] = s"
| "muxLoop s c (Inl err # rest) = s"
| "muxLoop s c (Inr st # rest) = muxLoop (publish s \<lparr>Conn = c, stream = st\<rparr>) c rest"

text \<open>\<open>mux\<close> (lines 252 to 279): \<open>smux.Server\<close> may fail before the loop.\<close>

definition mux :: "MWSSServer \<Rightarrow> nat \<Rightarrow> error option \<Rightarrow> (error + smuxStream) list \<Rightarrow> MWSSServer" where
  "mux s c serverErr results = (case serverErr of Some err \<Rightarrow> s | None \<Rightarrow> muxLoop s c results)"

text \<open>
  The goroutine of lines 202 to 208, once \<open>server.Serve\<close> has returned: the error,
  if any, is sent and the channel is closed. The channel has room for the one error.
\<close>

definition serveReturns :: "MWSSServer \<Rightarrow> error option \<Rightarrow> MWSSServer" where
  "serveReturns s err =
     (let ch = (case err of None \<Rightarrow> errChan s
                | Some e \<Rightarrow> (case trySend (errChan s) e of None \<Rightarrow> errChan s | Some ch' \<Rightarrow> ch'))
      in s\<lparr>errChan := ch\<lparr>chanClosed := True\<rparr>\<rparr>)"

text \<open>
  \<open>Accept\<close> (lines 281 to 287): a \<open>select\<close> over two receives. When both can
  proceed Go takes either one; \<open>takeConn\<close> says which. \<open>None\<close> is a call that waits.
\<close>

definition Accept ::
  "bool \<Rightarrow> MWSSServer \<Rightarrow> ((muxStreamConn option \<times> error option) \<times> MWSSServer) option" where
  "Accept takeConn s =
     (case (tryRecv (connChan s), tryRecv (errChan s)) of
        (None, None) \<Rightarrow> None
      | (Some (c, ch), None) \<Rightarrow> Some ((c, None), s\<lparr>connChan := ch\<rparr>)
      | (None, Some (e, ch)) \<Rightarrow> Some ((None, e), s\<lparr>errChan := ch\<rparr>)
      | (Some (c, ch), Some (e, ch')) \<Rightarrow>
          if takeConn then Some ((c, None), s\<lparr>connChan := ch\<rparr>)
          else Some ((None, e), s\<lparr>errChan := ch'\<rparr>))"

subsection \<open>Concrete servers\<close>

text \<open>
  A stream connection; a server whose queue holds 1024 connections; a server with one
  queued connection whose HTTP server has returned; and the same once \<open>Accept\<close> has
  received the error.
\<close>

definition stream0 :: muxStreamConn where
  "stream0 = \<lparr>Conn = 7, stream = \<lparr>sess = 1, streamId = 2\<rparr>\<rparr>"

definition fullServer :: MWSSServer where
  "fullServer = newMWSSServer\<lparr>connChan := (connChan newMWSSServer)\<lparr>buf := replicate 1024 stream0\<rparr>\<rparr>"

definition queuedServer :: MWSSServer where
  "queuedServer = publish newMWSSServer stream0"

definition exitedServer :: MWSSServer where
  "exitedServer = serveReturns queuedServer (Some (OtherError ''http: Server closed''))"

definition drainedServer :: MWSSServer where
  "drainedServer = exitedServer\<lparr>errChan := (errChan exitedServer)\<lparr>buf := []\<rparr>\<rparr>"

subsection \<open>Concrete pools\<close>

text \<open>
  Environments: every step succeeds (the runtime gives a new array the capacity \<open>g\<close>,
  the stream gets the number \<open>n\<close>); the TCP dial is refused; the stream cannot be
  opened.
\<close>

definition okEnv :: "nat \<Rightarrow> nat \<Rightarrow> dialEnv" where
  "okEnv g n = \<lparr>urlParse = None, netDial = Inr 7, wsDial = Inr 8, smuxClient = None,
                openStream = Inr n, growCap = g\<rparr>"

definition dialRefused :: dialEnv where
  "dialRefused = (okEnv 2 3)\<lparr>netDial := Inl (OtherError ''connection refused'')\<rparr>"

definition streamRefused :: dialEnv where
  "streamRefused = (okEnv 2 5)\<lparr>openStream := Inl (OtherError ''broken pipe'')\<rparr>"

text \<open>
  With \<open>MaxMWSSStreamCnt = 2\<close>: the pool after one, two and three calls of
  \<open>Dial\<close> for the address \<open>x\<close>. \<open>poolStale\<close> is the pool after three calls once the
  multiplexer of the first session has closed (a closed multiplexer counts no streams);
  \<open>poolLone\<close> is the pool after one call once its only session has closed.
\<close>

definition pool1 :: world where
  "pool1 = snd (Dial 2 (okEnv 1 3) NewMWSSTransporter ''x'')"

definition pool2 :: world where
  "pool2 = snd (Dial 2 (okEnv 2 5) pool1 ''x'')"

definition pool3 :: world where
  "pool3 = snd (Dial 2 (okEnv 2 3) pool2 ''x'')"

definition poolStale :: world where
  "poolStale = multiplexerEvent pool3 1 \<lparr>sessClosed = True, numStreams = 0\<rparr>"

definition poolLone :: world where
  "poolLone = multiplexerEvent pool1 1 \<lparr>sessClosed = True, numStreams = 0\<rparr>"

text \<open>
  \<open>poolTwice\<close> is \<open>poolStale\<close> after a call whose TCP dial was refused, once the
  multiplexer of the second session has closed as well.
\<close>

definition poolTwice :: world where
  "poolTwice = multiplexerEvent (snd (Dial 2 dialRefused poolStale ''x'')) 2
                 \<lparr>sessClosed = True, numStreams = 0\<rparr>"

section \<open>Properties of the accept loop\<close>

lemma wrap64_id: "- (2 ^ 63) \<le> x \<Longrightarrow> x < 2 ^ 63 \<Longrightarrow> wrap64 x = x"
  by (simp add: wrap64_def)

lemma cappedDoubling_pos: "0 < cappedDoubling i"
  by (simp add: cappedDoubling_def Millisecond_def Second_def)

lemma cappedDoubling_le: "cappedDoubling i \<le> Second"
  by (simp add: cappedDoubling_def)

lemma nextDelay_zero: "nextDelay 0 = cappedDoubling 0"
  by (simp add: nextDelay_def cappedDoubling_def wrap64_id Millisecond_def Second_def)

text \<open>Doubling a capped delay stays far below \<open>2 ^ 63\<close>, so nothing wraps.\<close>

lemma nextDelay_capped: "nextDelay (cappedDoubling i) = cappedDoubling (Suc i)"
proof -
  let ?c = "cappedDoubling i"
  have pos: "0 < ?c" by (rule cappedDoubling_pos)
  have le: "?c \<le> 1000000000" using cappedDoubling_le [of i] by (simp add: Second_def)
  have w: "wrap64 (?c * 2) = ?c * 2" using pos le by (intro wrap64_id) auto
  have ws: "wrap64 Second = Second" by (simp add: wrap64_id Second_def)
  have "nextDelay ?c = min (?c * 2) Second"
    using pos by (auto simp add: nextDelay_def w ws Let_def min_def)
  also have "\<dots> = cappedDoubling (Suc i)"
    by (simp add: cappedDoubling_def min_def Second_def)
  finally show ?thesis .
qed

lemma cappedDoubling_mono: "i \<le> j \<Longrightarrow> cappedDoubling i \<le> cappedDoubling j"
proof -
  assume "i \<le> j"
  then have "(2::int) ^ i \<le> 2 ^ j" by (simp add: power_increasing)
  then have "5 * Millisecond * 2 ^ i \<le> 5 * Millisecond * 2 ^ j" by (simp add: Millisecond_def)
  then show ?thesis unfolding cappedDoubling_def by (rule min.mono) simp
qed

lemma transient_cases:
  assumes "isTransient r"
  obtains c e where "r = (c, Some e)" and "isTemporaryNetError e"
  using assms by (cases r; cases "snd r") auto

lemma slept_from_capped:
  "\<forall>r\<in>set rs. isTransient r \<Longrightarrow>
   slept (acceptLoop (cappedDoubling j) rs) = map (\<lambda>i. cappedDoubling (Suc j + i)) [0..<length rs]"
proof (induction rs arbitrary: j)
  case Nil
  then show ?case by simp
next
  case (Cons r rs)
  from Cons.prems have "isTransient r" by simp
  then obtain c e where r: "r = (c, Some e)" "isTemporaryNetError e"
    by (rule transient_cases)
  have "slept (acceptLoop (cappedDoubling j) (r # rs)) =
        cappedDoubling (Suc j) # slept (acceptLoop (cappedDoubling (Suc j)) rs)"
    using r by (simp add: Let_def nextDelay_capped)
  also have "\<dots> = cappedDoubling (Suc j) # map (\<lambda>i. cappedDoubling (Suc (Suc j) + i)) [0..<length rs]"
    using Cons by simp
  also have "\<dots> = map (\<lambda>i. cappedDoubling (Suc j + i)) [0..<length (r # rs)]"
    by (simp add: upt_conv_Cons map_Suc_upt [symmetric] del: upt_Suc)
  finally show ?case .
qed

lemma slept_from_zero:
  assumes "\<forall>r\<in>set rs. isTransient r"
  shows "slept (acceptLoop 0 rs) = map cappedDoubling [0..<length rs]"
proof (cases rs)
  case Nil
  then show ?thesis by simp
next
  case (Cons r rs')
  from assms Cons have "isTransient r" by simp
  then obtain c e where r: "r = (c, Some e)" "isTemporaryNetError e"
    by (rule transient_cases)
  have "slept (acceptLoop 0 (r # rs')) = cappedDoubling 0 # slept (acceptLoop (cappedDoubling 0) rs')"
    using r by (simp add: Let_def nextDelay_zero)
  also have "\<dots> = cappedDoubling 0 # map (\<lambda>i. cappedDoubling (Suc 0 + i)) [0..<length rs']"
    using assms Cons by (simp add: slept_from_capped)
  also have "\<dots> = map cappedDoubling [0..<length (r # rs')]"
    by (simp add: upt_conv_Cons map_Suc_upt [symmetric] del: upt_Suc)
  finally show ?thesis using Cons by simp
qed

lemma sorted_capped: "sorted (map cappedDoubling [0..<n])"
  by (simp add: sorted_iff_nth_mono cappedDoubling_mono del: upt_Suc)

lemma returned_running:
  "\<forall>r\<in>set rs. keepsRunning r \<Longrightarrow> returned (acceptLoop d rs) = None"
  by (induction d rs rule: acceptLoop.induct) (auto simp: Let_def)

lemma returned_fatal:
  "\<forall>r\<in>set pre. keepsRunning r \<Longrightarrow> \<not> isTemporaryNetError e \<Longrightarrow>
   returned (acceptLoop d (pre @ (c, Some e) # post)) = Some e"
  by (induction d pre rule: acceptLoop.induct) (auto simp: Let_def)

lemma returned_not_temporary:
  "returned (acceptLoop d rs) = Some e \<Longrightarrow> \<not> isTemporaryNetError e"
  by (induction d rs rule: acceptLoop.induct) (auto simp: Let_def split: if_splits)

lemma fatal_stops:
  "\<forall>r\<in>set pre. keepsRunning r \<Longrightarrow> \<not> isTemporaryNetError e \<Longrightarrow>
   acceptLoop d (pre @ (c, Some e) # post) = acceptLoop d (pre @ [(c, Some e)])"
  by (induction d pre rule: acceptLoop.induct) (auto simp: Let_def)

text \<open>
  C7. After the start of the server, or after any successful accept, a run of
  consecutive transient accept errors sleeps 5ms, 10ms, 20ms, ..., each delay capped at
  one second: the delays never decrease and never exceed the ceiling. A successful
  accept sets the delay back to zero.
\<close>

theorem backoff_sequence:
  assumes "\<forall>r\<in>set rs. isTransient r"
  shows "slept (RunLocalMWSSServer None rs) = map cappedDoubling [0..<length rs] \<and>
         slept (acceptLoop d ((c, None) # rs)) = map cappedDoubling [0..<length rs] \<and>
         sorted (slept (RunLocalMWSSServer None rs)) \<and>
         (\<forall>t\<in>set (slept (RunLocalMWSSServer None rs)). t \<le> Second) \<and>
         tempDelay (acceptLoop d [(c, None)]) = 0"
proof -
  have a: "slept (acceptLoop 0 rs) = map cappedDoubling [0..<length rs]"
    using assms by (rule slept_from_zero)
  have b: "\<forall>t\<in>set (map cappedDoubling [0..<length rs]). t \<le> Second"
    by (simp add: cappedDoubling_le)
  show ?thesis
    using a b sorted_capped [of "length rs"]
    by (simp add: RunLocalMWSSServer_def Let_def)
qed

theorem backoff_sequence_witness:
  "list_all isTransient
     (replicate 10 (None :: nat option, Some (NetError True ''too many open files''))) \<and>
   slept (RunLocalMWSSServer None
     (replicate 10 (None :: nat option, Some (NetError True ''too many open files'')))) =
   [5000000, 10000000, 20000000, 40000000, 80000000, 160000000, 320000000, 640000000,
    1000000000, 1000000000] \<and>
   tempDelay (acceptLoop 1000000000 [(Some (3::nat), None)]) = 0"
proof -
  let ?rs = "replicate 10 (None :: nat option, Some (NetError True ''too many open files''))"
  have h: "\<forall>r\<in>set ?rs. isTransient r" by simp
  have m: "map cappedDoubling [0..<10] =
    [5000000, 10000000, 20000000, 40000000, 80000000, 160000000, 320000000, 640000000,
     1000000000, 1000000000]"
    by (simp add: upt_conv_Cons cappedDoubling_def Millisecond_def Second_def)
  show ?thesis
    using h backoff_sequence [OF h, of 1000000000 "Some 3"] m by (simp add: list_all_iff)
qed

text \<open>
  C8. An accept error that is not a temporary \<open>net.Error\<close> ends the accept loop: it is
  the error \<open>RunLocalMWSSServer\<close> returns, and no later accept result is looked at.
  While every result is a connection or a transient error the loop has not returned,
  and an error the loop returns is never a transient one.
\<close>

theorem fatal_error_terminates:
  assumes "\<forall>r\<in>set pre. keepsRunning r" and "\<not> isTemporaryNetError e"
  shows "returned (RunLocalMWSSServer None (pre @ (c, Some e) # post)) = Some e \<and>
         RunLocalMWSSServer None (pre @ (c, Some e) # post) =
           RunLocalMWSSServer None (pre @ [(c, Some e)]) \<and>
         returned (RunLocalMWSSServer None pre) = None \<and>
         (\<forall>rs e'. returned (RunLocalMWSSServer None rs) = Some e' \<longrightarrow>
                  \<not> isTemporaryNetError e')"
  using assms
  by (simp add: RunLocalMWSSServer_def returned_fatal returned_running
      returned_not_temporary fatal_stops [of pre e 0 c post])

theorem fatal_error_terminates_witness:
  "list_all keepsRunning [(Some (4::nat), None), (None, Some (NetError True ''timeout''))] \<and>
   \<not> isTemporaryNetError (OtherError ''http: Server closed'') \<and>
   returned (RunLocalMWSSServer None
     ([(Some (4::nat), None), (None, Some (NetError True ''timeout''))] @
      (None, Some (OtherError ''http: Server closed'')) # [(Some 5, None)])) =
     Some (OtherError ''http: Server closed'') \<and>
   returned (RunLocalMWSSServer None
     [(Some (4::nat), None), (None, Some (NetError True ''timeout''))]) = None"
proof -
  let ?pre = "[(Some (4::nat), None), (None, Some (NetError True ''timeout''))]"
  have h0: "list_all keepsRunning ?pre" by simp
  have h1: "\<forall>r\<in>set ?pre. keepsRunning r" by simp
  have h2: "\<not> isTemporaryNetError (OtherError ''http: Server closed'')" by simp
  show ?thesis
    using h0 h2 fatal_error_terminates [OF h1 h2, of None "[(Some 5, None)]"]
    by blast
qed

section \<open>Properties of the server queue\<close>

lemma publish_full:
  "length (buf (connChan s)) = capacity (connChan s) \<Longrightarrow>
   publish s cc = s\<lparr>closedConns := closedConns s @ [cc]\<rparr>"
  by (simp add: publish_def trySend_def)

lemma muxLoop_full:
  "length (buf (connChan s)) = capacity (connChan s) \<Longrightarrow>
   muxLoop s c (map Inr sts) =
     s\<lparr>closedConns := closedConns s @ map (\<lambda>st. \<lparr>Conn = c, stream = st\<rparr>) sts\<rparr>"
proof (induction sts arbitrary: s)
  case Nil
  then show ?case by simp
next
  case (Cons st sts)
  let ?s' = "s\<lparr>closedConns := closedConns s @ [\<lparr>Conn = c, stream = st\<rparr>]\<rparr>"
  have "muxLoop s c (map Inr (st # sts)) = muxLoop ?s' c (map Inr sts)"
    using Cons.prems by (simp add: publish_full)
  also have "\<dots> = ?s'\<lparr>closedConns := closedConns ?s' @ map (\<lambda>st. \<lparr>Conn = c, stream = st\<rparr>) sts\<rparr>"
    using Cons.prems by (intro Cons.IH) simp
  finally show ?case by simp
qed

lemma publish_capacity: "capacity (connChan (publish s cc)) = capacity (connChan s)"
  by (simp add: publish_def trySend_def split: option.splits)

lemma publish_bounded:
  "length (buf (connChan s)) \<le> capacity (connChan s) \<Longrightarrow>
   length (buf (connChan (publish s cc))) \<le> capacity (connChan (publish s cc))"
  by (auto simp add: publish_def trySend_def split: option.splits)

lemma muxLoop_capacity: "capacity (connChan (muxLoop s c rs)) = capacity (connChan s)"
  by (induction s c rs rule: muxLoop.induct) (simp_all add: publish_capacity)

text \<open>
  C6. When the queue \<open>connChan\<close> is full, the next accepted stream is closed at once:
  the select takes its default branch, the queue keeps its contents and its length, and
  so for every further stream the loop accepts. The capacity never changes; it is the
  1024 given when the server is built.
\<close>

theorem full_queue_drops:
  assumes "length (buf (connChan s)) = capacity (connChan s)"
  shows "publish s cc = s\<lparr>closedConns := closedConns s @ [cc]\<rparr> \<and>
         buf (connChan (publish s cc)) = buf (connChan s) \<and>
         length (buf (connChan (publish s cc))) = capacity (connChan s) \<and>
         muxLoop s c (map Inr sts) =
           s\<lparr>closedConns := closedConns s @ map (\<lambda>st. \<lparr>Conn = c, stream = st\<rparr>) sts\<rparr> \<and>
         capacity (connChan (muxLoop s c rs)) = capacity (connChan s) \<and>
         capacity (connChan newMWSSServer) = 1024"
  using assms
  by (simp add: publish_full muxLoop_full muxLoop_capacity newMWSSServer_def)

theorem full_queue_drops_witness:
  "length (buf (connChan fullServer)) = capacity (connChan fullServer) \<and>
   closedConns (publish fullServer stream0) = [stream0] \<and>
   buf (connChan (publish fullServer stream0)) = replicate 1024 stream0"
proof -
  have h: "length (buf (connChan fullServer)) = capacity (connChan fullServer)"
    by (simp add: fullServer_def newMWSSServer_def)
  show ?thesis
    using h full_queue_drops [OF h, of stream0 7 "[]" "[]"]
    by (simp add: fullServer_def newMWSSServer_def)
qed

text \<open>
  C10, as stated, fails: with a connection still queued, a call of \<open>Accept\<close> after the
  error channel is closed and empty may take the connection case of the select.
\<close>

theorem accept_after_serve_counterexample:
  "chanClosed (errChan drainedServer) \<and> buf (errChan drainedServer) = [] \<and>
   Accept False exitedServer = Some ((None, Some (OtherError ''http: Server closed'')), drainedServer) \<and>
   Accept True drainedServer =
     Some ((Some stream0, None), drainedServer\<lparr>connChan := (connChan drainedServer)\<lparr>buf := []\<rparr>\<rparr>)"
  by (simp add: drainedServer_def exitedServer_def queuedServer_def serveReturns_def publish_def
      trySend_def tryRecv_def Accept_def newMWSSServer_def stream0_def)

text \<open>
  C10, amended. Once the error channel is closed and empty, a call of \<open>Accept\<close> never
  waits. It returns a nil connection and a nil error whenever the select takes the
  error case, which it must when no connection is queued; when a connection is queued
  and the select takes the connection case, it returns that connection.
\<close>

theorem accept_after_serve:
  assumes "chanClosed (errChan s)" and "buf (errChan s) = []"
  shows "Accept takeConn s \<noteq> None \<and>
         Accept False s = Some ((None, None), s) \<and>
         (buf (connChan s) = [] \<longrightarrow> Accept takeConn s = Some ((None, None), s)) \<and>
         (buf (connChan s) \<noteq> [] \<longrightarrow>
            Accept True s = Some ((Some (hd (buf (connChan s))), None),
                                  s\<lparr>connChan := (connChan s)\<lparr>buf := tl (buf (connChan s))\<rparr>\<rparr>))"
  using assms
  by (cases "buf (connChan s)") (auto simp add: Accept_def tryRecv_def)

theorem accept_after_serve_witness:
  "chanClosed (errChan drainedServer) \<and> buf (errChan drainedServer) = [] \<and>
   Accept False drainedServer = Some ((None, None), drainedServer)"
proof -
  have h1: "chanClosed (errChan drainedServer)"
    by (simp add: drainedServer_def exitedServer_def serveReturns_def)
  have h2: "buf (errChan drainedServer) = []"
    by (simp add: drainedServer_def)
  show ?thesis using h1 h2 accept_after_serve [OF h1 h2, of True] by simp
qed


section \<open>Properties of the client pool\<close>

lemma deref_nil [simp]: "deref w nil = None"
  by (simp add: deref_def)

lemma live_deref: "live w p \<Longrightarrow> \<exists>ms sx. deref w p = Some ms \<and> session ms = Some sx"
  by (auto simp: live_def deref_def split: option.splits)

lemma underCapacity_not_nil: "underCapacity w p \<Longrightarrow> p \<noteq> nil"
  by (auto simp: underCapacity_def)

text \<open>The scan is first fit on the stream count alone.\<close>

lemma scanLoop_find:
  "\<forall>p\<in>set ss. live w p \<Longrightarrow>
   scanLoop w ss sel ok =
     Some (case find (underCapacity w) ss of
             None \<Rightarrow> (sel, if ss = [] then ok else False)
           | Some s \<Rightarrow> (s, True))"
proof (induction ss arbitrary: ok)
  case Nil
  then show ?case by simp
next
  case (Cons s ss)
  from Cons.prems have "live w s" by simp
  then obtain ms sx where d: "deref w s = Some ms" "session ms = Some sx"
    using live_deref by blast
  show ?case
  proof (cases "underCapacity w s")
    case True
    then show ?thesis using d by (simp add: underCapacity_def)
  next
    case False
    then have full: "maxStreamCnt ms \<le> numStreams sx" using d by (simp add: underCapacity_def)
    have "scanLoop w (s # ss) sel ok = scanLoop w ss sel False"
      using d full by simp
    also have "\<dots> = Some (case find (underCapacity w) ss of
             None \<Rightarrow> (sel, if ss = [] then False else False)
           | Some s \<Rightarrow> (s, True))"
      using Cons.prems by (intro Cons.IH) simp
    finally show ?thesis using False by (simp split: option.splits)
  qed
qed

lemma scanLoop_selected:
  "scanLoop w ss nil ok = Some (sel, ok') \<Longrightarrow> sel \<noteq> nil \<Longrightarrow>
   sel \<in> set ss \<and> underCapacity w sel \<and> ok'"
proof (induction ss arbitrary: ok)
  case Nil
  then show ?case by simp
next
  case (Cons s ss)
  from Cons.prems(1) obtain ms sx where d: "deref w s = Some ms" "session ms = Some sx"
    by (auto split: option.splits)
  show ?case
  proof (cases "numStreams sx \<ge> maxStreamCnt ms")
    case True
    then have "scanLoop w ss nil False = Some (sel, ok')"
      using Cons.prems(1) d by simp
    then show ?thesis using Cons.IH Cons.prems(2) by auto
  next
    case False
    then have "sel = s" "ok'" using Cons.prems(1) d by auto
    then show ?thesis using d False by (simp add: underCapacity_def)
  qed
qed

lemma indexOf_Some: "p \<in> set ss \<Longrightarrow> \<exists>i. indexOf p ss = Some i \<and> i < length ss \<and> ss ! i = p"
  by (induction ss) auto

lemma indexOf_lt: "indexOf p ss = Some i \<Longrightarrow> i < length ss"
  by (induction ss arbitrary: i) (auto split: if_splits)


lemma live_frame [simp]:
  "live (w\<lparr>arrays := a\<rparr>) p = live w p"
  "live (w\<lparr>sessions := m\<rparr>) p = live w p"
  "live (w\<lparr>nextArray := n\<rparr>) p = live w p"
  by (simp_all add: live_def)

lemma observers_frame [simp]:
  "deref (w\<lparr>sessions := m\<rparr>) p = deref w p"
  "deref (w\<lparr>arrays := a\<rparr>) p = deref w p"
  "NumStreamsAt (w\<lparr>sessions := m\<rparr>) p = NumStreamsAt w p"
  "NumStreamsAt (w\<lparr>arrays := a\<rparr>) p = NumStreamsAt w p"
  "IsClosedAt (w\<lparr>sessions := m\<rparr>) p = IsClosedAt w p"
  "IsClosedAt (w\<lparr>arrays := a\<rparr>) p = IsClosedAt w p"
  by (simp_all add: deref_def NumStreamsAt_def IsClosedAt_def)

lemma live_update:
  "live w p \<Longrightarrow> session ms \<noteq> None \<Longrightarrow> live (w\<lparr>objs := (objs w)(q := Some ms)\<rparr>) p"
  by (simp add: live_def)

lemma live_alloc:
  "live w p \<Longrightarrow> live (w\<lparr>objs := (objs w)(nextObj w := Some ms), nextObj := nextObj w + 1\<rparr>) p"
  by (auto simp: live_def)

lemma live_new:
  "nextObj w \<noteq> nil \<Longrightarrow> session ms \<noteq> None \<Longrightarrow>
   live (w\<lparr>objs := (objs w)(nextObj w := Some ms), nextObj := nextObj w + 1\<rparr>) (nextObj w)"
  by (simp add: live_def)

lemma set_take_update:
  "set (take n (xs[i := q])) \<subseteq> insert q (set (take n xs))"
  by (simp add: take_update_swap set_update_subset_insert)

lemma sliceOk_elems_nonempty: "sliceOk w sl \<Longrightarrow> elems w sl \<noteq> []"
  by (auto simp: sliceOk_def elems_def)

lemma sliceOk_length: "sliceOk w sl \<Longrightarrow> length (elems w sl) = len sl"
  by (auto simp: sliceOk_def elems_def)

lemma localOk_length: "localOk w sl \<Longrightarrow> length (elems w sl) = len sl"
  by (auto simp: localOk_def elems_def)

lemma sliceOk_localOk: "sliceOk w sl \<Longrightarrow> localOk w sl"
  by (simp add: sliceOk_def localOk_def)

lemma localOk_sliceOk: "localOk w sl \<Longrightarrow> 1 \<le> len sl \<Longrightarrow> sliceOk w sl"
  by (auto simp: sliceOk_def localOk_def)

lemma localOk_nilSlice: "localOk w nilSlice"
  by (simp add: localOk_def nilSlice_def elems_def)

lemma poolOk_stored: "poolOk w \<Longrightarrow> localOk w (stored w addr)"
  by (auto simp: poolOk_def stored_def localOk_nilSlice sliceOk_localOk split: option.splits)

lemma pool_stored: "pool w addr = elems w (stored w addr)"
  by (simp add: pool_def stored_def elems_def nilSlice_def split: option.splits)

text \<open>Writing a live pointer into an array keeps every header over it in order.\<close>

lemma sliceOk_write:
  assumes "sliceOk w sl" and "live w q"
  shows "sliceOk (w\<lparr>arrays := (arrays w)(a := (arrays w a)[i := q])\<rparr>) sl"
proof -
  let ?w = "w\<lparr>arrays := (arrays w)(a := (arrays w a)[i := q])\<rparr>"
  have "set (elems ?w sl) \<subseteq> insert q (set (elems w sl))"
    using set_take_update [of "len sl" "arrays w a" i q] by (auto simp: elems_def)
  then have "\<forall>p\<in>set (elems ?w sl). live ?w p"
    using assms by (auto simp: sliceOk_def)
  then show ?thesis using assms(1) by (auto simp: sliceOk_def)
qed

lemma localOk_write:
  assumes "localOk w sl" and "live w q"
  shows "localOk (w\<lparr>arrays := (arrays w)(a := (arrays w a)[i := q])\<rparr>) sl"
proof -
  let ?w = "w\<lparr>arrays := (arrays w)(a := (arrays w a)[i := q])\<rparr>"
  have "set (elems ?w sl) \<subseteq> insert q (set (elems w sl))"
    using set_take_update [of "len sl" "arrays w a" i q] by (auto simp: elems_def)
  then have "\<forall>p\<in>set (elems ?w sl). live ?w p"
    using assms by (auto simp: localOk_def)
  then show ?thesis using assms(1) by (auto simp: localOk_def)
qed

lemma poolOk_write:
  "poolOk w \<Longrightarrow> live w q \<Longrightarrow> poolOk (w\<lparr>arrays := (arrays w)(a := (arrays w a)[i := q])\<rparr>)"
  by (simp add: poolOk_def sliceOk_write)

text \<open>Steps that leave the arrays under the stored headers alone.\<close>

lemma sliceOk_frame:
  assumes "sliceOk w sl" and "arrays w' (ptr sl) = arrays w (ptr sl)"
    and "nextArray w \<le> nextArray w'" and "\<And>p. live w p \<Longrightarrow> live w' p"
  shows "sliceOk w' sl"
  using assms by (auto simp: sliceOk_def elems_def)

lemma localOk_frame:
  assumes "localOk w sl" and "arrays w' (ptr sl) = arrays w (ptr sl)"
    and "nextArray w \<le> nextArray w'" and "\<And>p. live w p \<Longrightarrow> live w' p"
  shows "localOk w' sl"
  using assms by (auto simp: localOk_def elems_def)

lemma poolOk_frame:
  assumes "poolOk w" and "sessions w' = sessions w"
    and "\<And>a. a < nextArray w \<Longrightarrow> arrays w' a = arrays w a"
    and "nextArray w \<le> nextArray w'" and "nextObj w \<le> nextObj w'"
    and "\<And>p. live w p \<Longrightarrow> live w' p"
  shows "poolOk w'"
  unfolding poolOk_def
proof (intro conjI allI impI)
  show "nextObj w' \<noteq> nil" using assms(1,5) by (simp add: poolOk_def nil_def)
next
  fix addr sl
  assume "sessions w' addr = Some sl"
  then have ok: "sliceOk w sl" using assms(1,2) by (simp add: poolOk_def)
  then have "ptr sl < nextArray w" by (simp add: sliceOk_def)
  then have "arrays w' (ptr sl) = arrays w (ptr sl)" by (rule assms(3))
  with ok show "sliceOk w' sl" using assms(4,6) by (rule sliceOk_frame)
qed

lemma poolOk_store:
  "poolOk w \<Longrightarrow> sliceOk w sl \<Longrightarrow> poolOk (w\<lparr>sessions := (sessions w)(addr := Some sl)\<rparr>)"
  by (auto simp: poolOk_def sliceOk_def elems_def)


subsection \<open>evict\<close>

lemma evict_fields:
  "evict w sl p = (w', sl') \<Longrightarrow>
   objs w' = objs w \<and> nextObj w' = nextObj w \<and> nextArray w' = nextArray w \<and>
   sessions w' = sessions w \<and> ptr sl' = ptr sl \<and> cap sl' = cap sl \<and>
   (\<forall>a. length (arrays w' a) = length (arrays w a))"
  by (auto simp: evict_def Let_def split: option.splits)

lemma evict_len:
  "p \<in> set (elems w sl) \<Longrightarrow> evict w sl p = (w', sl') \<Longrightarrow> len sl' = len sl - 1"
  by (auto simp: evict_def Let_def split: option.splits dest: indexOf_Some)

lemma evict_live [simp]: "live (fst (evict w sl p)) q = live w q"
  by (auto simp: evict_def Let_def live_def split: option.splits)

text \<open>The element written by the eviction is the last one shown by the header.\<close>

lemma last_elem_live:
  assumes "localOk w sl" and "1 \<le> len sl"
  shows "live w (arrays w (ptr sl) ! (len sl - 1))"
proof -
  have "len sl - 1 < length (elems w sl)" using assms by (simp add: localOk_length)
  then have "elems w sl ! (len sl - 1) \<in> set (elems w sl)" by (rule nth_mem)
  moreover have "elems w sl ! (len sl - 1) = arrays w (ptr sl) ! (len sl - 1)"
    using assms by (simp add: elems_def)
  ultimately show ?thesis using assms(1) by (auto simp: localOk_def)
qed

lemma evict_poolOk:
  assumes "poolOk w" and "localOk w sl" and "evict w sl p = (w', sl')"
  shows "poolOk w'"
proof (cases "indexOf p (elems w sl)")
  case None
  then show ?thesis using assms by (simp add: evict_def)
next
  case (Some i)
  then have "i < length (elems w sl)" by (rule indexOf_lt)
  then have "1 \<le> len sl" using assms(2) by (simp add: localOk_length)
  then have "live w (arrays w (ptr sl) ! (len sl - 1))"
    using assms(2) by (intro last_elem_live)
  then show ?thesis
    using assms(1,3) Some by (auto simp: evict_def Let_def intro: poolOk_write)
qed

lemma evict_localOk:
  assumes "localOk w sl" and "evict w sl p = (w', sl')"
  shows "localOk w' sl'"
proof (cases "indexOf p (elems w sl)")
  case None
  then show ?thesis using assms by (simp add: evict_def)
next
  case (Some i)
  then have "i < length (elems w sl)" by (rule indexOf_lt)
  then have one: "1 \<le> len sl" using assms(1) by (simp add: localOk_length)
  then have lv: "live w (arrays w (ptr sl) ! (len sl - 1))"
    using assms(1) by (intro last_elem_live)
  let ?q = "arrays w (ptr sl) ! (len sl - 1)"
  let ?w = "w\<lparr>arrays := (arrays w)(ptr sl := (arrays w (ptr sl))[i := ?q])\<rparr>"
  have w': "w' = ?w" and sl': "sl' = sl\<lparr>len := len sl - 1\<rparr>"
    using assms(2) Some by (auto simp: evict_def Let_def)
  have "localOk ?w sl" using assms(1) lv by (rule localOk_write)
  moreover have "set (take (len sl - 1) (arrays ?w (ptr sl))) \<subseteq> set (take (len sl) (arrays ?w (ptr sl)))"
    by (rule set_take_subset_set_take) simp
  ultimately have "localOk ?w (sl\<lparr>len := len sl - 1\<rparr>)"
    unfolding localOk_def elems_def by auto
  then show ?thesis using w' sl' by simp
qed

text \<open>What the eviction does to the elements the local header shows.\<close>

lemma evict_elems:
  assumes loc: "localOk w sl" and ev: "evict w sl p = (w', sl')"
  shows "elems w' sl' = swapRemove p (elems w sl)"
proof (cases "indexOf p (elems w sl)")
  case None
  then show ?thesis using ev by (simp add: evict_def swapRemove_def)
next
  case (Some i)
  let ?a = "arrays w (ptr sl)"
  have il: "i < length (elems w sl)" using Some by (rule indexOf_lt)
  have ll: "length (elems w sl) = len sl" using loc by (rule localOk_length)
  have le: "len sl \<le> length ?a" using loc by (simp add: localOk_def)
  have one: "1 \<le> len sl" using il ll by simp
  have ne: "elems w sl \<noteq> []" using il by auto
  have "last (elems w sl) = elems w sl ! (len sl - 1)"
    using ne ll by (simp add: last_conv_nth)
  also have "\<dots> = ?a ! (len sl - 1)" using one by (simp add: elems_def)
  finally have lst: "last (elems w sl) = ?a ! (len sl - 1)" .
  have w': "w' = w\<lparr>arrays := (arrays w)(ptr sl := ?a[i := ?a ! (len sl - 1)])\<rparr>"
    and sl': "sl' = sl\<lparr>len := len sl - 1\<rparr>"
    using ev Some by (simp_all add: evict_def Let_def)
  have "elems w' sl' = take (len sl - 1) (?a[i := ?a ! (len sl - 1)])"
    unfolding w' sl' by (simp add: elems_def)
  also have "\<dots> = butlast (take (len sl) (?a[i := ?a ! (len sl - 1)]))"
    using le by (simp add: butlast_take)
  also have "\<dots> = butlast ((elems w sl)[i := last (elems w sl)])"
    unfolding lst by (simp add: elems_def take_update_swap)
  finally show ?thesis using Some by (simp add: swapRemove_def)
qed

lemma indexOf_nth: "indexOf p xs = Some i \<Longrightarrow> i < length xs \<and> xs ! i = p"
  by (induction xs arbitrary: i) (auto split: if_splits)

lemma swapRemove_length:
  "p \<in> set xs \<Longrightarrow> length (swapRemove p xs) = length xs - 1"
  by (auto simp: swapRemove_def dest: indexOf_Some split: option.splits)

lemma swapRemove_distinct:
  assumes d: "distinct xs" and p: "p \<in> set xs"
  shows "p \<notin> set (swapRemove p xs)" and "set (swapRemove p xs) \<subseteq> set xs"
proof -
  obtain i where i: "indexOf p xs = Some i" "i < length xs" "xs ! i = p"
    using indexOf_Some [OF p] by blast
  let ?n = "length xs"
  let ?ys = "xs[i := last xs]"
  have sr: "swapRemove p xs = butlast ?ys" using i(1) by (simp add: swapRemove_def)
  have ne: "xs \<noteq> []" using p by auto
  have lastx: "last xs = xs ! (?n - 1)" using ne by (rule last_conv_nth)
  have elem: "butlast ?ys ! j \<noteq> p \<and> butlast ?ys ! j \<in> set xs" if j: "j < ?n - 1" for j
  proof (cases "j = i")
    case True
    then have "butlast ?ys ! j = xs ! (?n - 1)"
      using j i(2) by (simp add: nth_butlast lastx)
    moreover have "xs ! (?n - 1) \<noteq> xs ! i"
      using d j True i(2) by (simp add: nth_eq_iff_index_eq)
    ultimately show ?thesis using i(3) ne by simp
  next
    case False
    then have "butlast ?ys ! j = xs ! j" using j by (simp add: nth_butlast)
    moreover have "xs ! j \<noteq> xs ! i"
      using d j False i(2) by (simp add: nth_eq_iff_index_eq)
    ultimately show ?thesis using i(3) j by simp
  qed
  have len: "length (butlast ?ys) = ?n - 1" by simp
  show "p \<notin> set (swapRemove p xs)"
    unfolding sr using elem len by (metis in_set_conv_nth)
  show "set (swapRemove p xs) \<subseteq> set xs"
    unfolding sr using elem len by (metis in_set_conv_nth subsetI)
qed

lemma swapRemove_keeps:
  assumes q: "q \<in> set xs" and qp: "q \<noteq> p"
  shows "q \<in> set (swapRemove p xs)"
proof (cases "indexOf p xs")
  case None
  then show ?thesis using q by (simp add: swapRemove_def)
next
  case (Some i)
  then have i: "i < length xs" "xs ! i = p" using indexOf_nth by blast+
  let ?n = "length xs"
  let ?ys = "xs[i := last xs]"
  have sr: "swapRemove p xs = butlast ?ys" using Some by (simp add: swapRemove_def)
  have ne: "xs \<noteq> []" using q by auto
  have lastx: "last xs = xs ! (?n - 1)" using ne by (rule last_conv_nth)
  obtain j where j: "j < ?n" "xs ! j = q" using q by (auto simp: in_set_conv_nth)
  have ji: "j \<noteq> i" using j(2) i(2) qp by auto
  have "\<exists>k < length (butlast ?ys). butlast ?ys ! k = q"
  proof (cases "j = ?n - 1")
    case True
    then have "i < ?n - 1" using i(1) ji by simp
    moreover from this have "butlast ?ys ! i = q"
      using i(1) True j(2) by (simp add: nth_butlast lastx)
    ultimately show ?thesis by auto
  next
    case False
    then have "j < ?n - 1" using j(1) by simp
    moreover from this have "butlast ?ys ! j = q"
      using ji j(2) by (simp add: nth_butlast)
    ultimately show ?thesis by auto
  qed
  then show ?thesis unfolding sr by (auto simp: in_set_conv_nth)
qed

subsection \<open>initSession and append\<close>

lemma initSession_fail:
  assumes "\<not> (urlParse env = None \<and> \<not> isl (wsDial env) \<and> smuxClient env = None)"
  shows "\<exists>err. initSession maxCnt env w = (Inl err, w)"
  using assms
  by (cases "urlParse env"; cases "wsDial env"; cases "smuxClient env")
     (simp_all add: initSession_def)

lemma initSession_ok:
  assumes "urlParse env = None" and "\<not> isl (wsDial env)" and "smuxClient env = None"
  shows "initSession maxCnt env w = (Inr (nextObj w), alloc maxCnt env w)"
proof -
  from assms(2) obtain wsc where "wsDial env = Inr wsc" by (cases "wsDial env") simp_all
  then show ?thesis
    unfolding initSession_def alloc_def newSession_def
    by (simp add: assms(1,3))
qed

lemma alloc_fields [simp]:
  "sessions (alloc maxCnt env w) = sessions w"
  "arrays (alloc maxCnt env w) = arrays w"
  "nextArray (alloc maxCnt env w) = nextArray w"
  "nextObj (alloc maxCnt env w) = nextObj w + 1"
  "elems (alloc maxCnt env w) sl = elems w sl"
  by (simp_all add: alloc_def elems_def)

lemma alloc_live: "live w p \<Longrightarrow> live (alloc maxCnt env w) p"
  unfolding alloc_def by (rule live_alloc)

lemma alloc_new_live: "nextObj w \<noteq> nil \<Longrightarrow> live (alloc maxCnt env w) (nextObj w)"
  unfolding alloc_def by (rule live_new) (simp_all add: newSession_def)

lemma alloc_poolOk:
  assumes "poolOk w"
  shows "poolOk (alloc maxCnt env w)"
  using assms by (rule poolOk_frame) (simp_all add: alloc_live)

lemma alloc_localOk:
  assumes "localOk w sl"
  shows "localOk (alloc maxCnt env w) sl"
  using assms by (rule localOk_frame) (simp_all add: alloc_live)

lemma alloc_deref:
  "nextObj w \<noteq> nil \<Longrightarrow> deref (alloc maxCnt env w) (nextObj w) = Some (newSession maxCnt env)"
  by (simp add: deref_def alloc_def)

lemma alloc_deref_old:
  "p \<noteq> nextObj w \<Longrightarrow> deref (alloc maxCnt env w) p = deref w p"
  by (simp add: deref_def alloc_def)

lemma appendSession_fields:
  "appendSession c w sl p = (w', sl') \<Longrightarrow>
   objs w' = objs w \<and> nextObj w' = nextObj w \<and> sessions w' = sessions w \<and>
   nextArray w \<le> nextArray w' \<and> len sl' = len sl + 1"
  by (auto simp: appendSession_def Let_def split: if_splits)

lemma appendSession_live:
  "appendSession c w sl p = (w', sl') \<Longrightarrow> live w' q = live w q"
  by (auto simp: appendSession_def Let_def live_def split: if_splits)

lemma appendSession_elems:
  assumes "localOk w sl" and "appendSession c w sl p = (w', sl')"
  shows "elems w' sl' = elems w sl @ [p]"
proof (cases "len sl < cap sl")
  case True
  then have "len sl < length (arrays w (ptr sl))" using assms(1) by (simp add: localOk_def)
  then show ?thesis
    using assms(2) True by (auto simp: appendSession_def elems_def take_Suc_conv_app_nth)
next
  case False
  then have "len sl = cap sl" using assms(1) by (simp add: localOk_def)
  have "length (elems w sl) = len sl" using assms(1) by (rule localOk_length)
  then show ?thesis
    using assms(2) False by (auto simp: appendSession_def Let_def elems_def)
qed

lemma appendSession_array_lengths:
  "appendSession c w sl p = (w', sl') \<Longrightarrow> a < nextArray w \<Longrightarrow>
   length (arrays w' a) = length (arrays w a)"
  by (auto simp: appendSession_def Let_def split: if_splits)

lemma appendSession_poolOk:
  assumes "poolOk w" and "live w p" and "appendSession c w sl p = (w', sl')"
  shows "poolOk w'"
proof (cases "len sl < cap sl")
  case True
  then show ?thesis using assms by (auto simp: appendSession_def intro: poolOk_write)
next
  case False
  let ?w = "w\<lparr>arrays := (arrays w)(nextArray w :=
              elems w sl @ p # replicate (max c (len sl + 1) - (len sl + 1)) nil),
            nextArray := nextArray w + 1\<rparr>"
  have "poolOk ?w" using assms(1) by (rule poolOk_frame) simp_all
  then show ?thesis using assms(3) False by (auto simp: appendSession_def Let_def)
qed

lemma appendSession_sliceOk:
  assumes "localOk w sl" and "live w p" and "appendSession c w sl p = (w', sl')"
  shows "sliceOk w' sl'"
proof -
  have e: "elems w' sl' = elems w sl @ [p]" using assms(1,3) by (rule appendSession_elems)
  have lv: "\<forall>q\<in>set (elems w' sl'). live w' q"
    using assms e by (auto simp: localOk_def appendSession_live [OF assms(3)])
  show ?thesis
  proof (cases "len sl < cap sl")
    case True
    then show ?thesis
      using assms(1,3) lv by (auto simp: appendSession_def sliceOk_def localOk_def)
  next
    case False
    have "length (elems w sl) = len sl" using assms(1) by (rule localOk_length)
    then show ?thesis
      using assms(3) False lv by (auto simp: appendSession_def Let_def sliceOk_def)
  qed
qed


lemma createSession_fail:
  assumes "\<not> creates env"
  shows "\<exists>err. createSession maxCnt env w sl = (Inl err, w)"
proof (cases "urlParse env")
  case (Some err)
  then show ?thesis by (simp add: createSession_def)
next
  case None
  note u = this
  show ?thesis
  proof (cases "netDial env")
    case (Inl err)
    then show ?thesis using u by (simp add: createSession_def)
  next
    case (Inr c)
    then have "\<not> (urlParse env = None \<and> \<not> isl (wsDial env) \<and> smuxClient env = None)"
      using assms u by (simp add: creates_def)
    then obtain err where "initSession maxCnt env w = (Inl err, w)"
      using initSession_fail by blast
    then show ?thesis using u Inr by (simp add: createSession_def)
  qed
qed

lemma createSession_ok:
  assumes "creates env"
  shows "createSession maxCnt env w sl =
     (case appendSession (growCap env) (alloc maxCnt env w) sl (nextObj w) of
        (w'', sl') \<Rightarrow> (Inr (nextObj w, sl'), w''))"
proof -
  from assms obtain c where c: "urlParse env = None" "netDial env = Inr c"
    "\<not> isl (wsDial env)" "smuxClient env = None"
    by (cases "netDial env") (auto simp: creates_def)
  then have "initSession maxCnt env w = (Inr (nextObj w), alloc maxCnt env w)"
    by (simp add: initSession_ok)
  then show ?thesis using c by (simp add: createSession_def)
qed

lemma find_in_pool: "find P xs = Some x \<Longrightarrow> x \<in> set xs \<and> P x"
  by (induction xs) (auto split: if_splits)

lemma selectSession_cases:
  assumes "poolOk w"
  shows "selectSession w addr =
     (case find (underCapacity w) (pool w addr) of
        None \<Rightarrow> Some (nil, False, stored w addr, w)
      | Some s \<Rightarrow>
          if IsClosedAt w s
          then (let (w', sl') = evict w (stored w addr) s in Some (s, False, sl', w'))
          else Some (s, True, stored w addr, w))"
proof (cases "sessions w addr")
  case None
  then have "pool w addr = []" "stored w addr = nilSlice" "elems w nilSlice = []"
    by (simp_all add: pool_def stored_def elems_def nilSlice_def)
  then show ?thesis using None by (simp add: selectSession_def)
next
  case (Some sl)
  then have ok: "sliceOk w sl" using assms by (simp add: poolOk_def)
  then have lv: "\<forall>p\<in>set (elems w sl). live w p" and ne: "elems w sl \<noteq> []"
    by (simp_all add: sliceOk_def sliceOk_elems_nonempty)
  have ps: "pool w addr = elems w sl" "stored w addr = sl"
    using Some by (simp_all add: pool_def stored_def)
  have unfold: "selectSession w addr =
     (case scanLoop w (elems w sl) nil True of None \<Rightarrow> None
      | Some (sel, ok') \<Rightarrow>
          if sel \<noteq> nil \<and> IsClosedAt w sel
          then (let (w', sl') = evict w sl sel in Some (sel, False, sl', w'))
          else Some (sel, ok', sl, w))"
    using Some by (simp add: selectSession_def)
  show ?thesis
  proof (cases "find (underCapacity w) (elems w sl)")
    case None
    have "scanLoop w (elems w sl) nil True = Some (nil, False)"
      using scanLoop_find [OF lv, of nil True] ne by (simp add: None)
    then show ?thesis unfolding unfold ps by (simp add: None)
  next
    case (Some s)
    then have "underCapacity w s" by (auto dest: find_in_pool)
    then have nn: "s \<noteq> nil" by (rule underCapacity_not_nil)
    have "scanLoop w (elems w sl) nil True = Some (s, True)"
      using scanLoop_find [OF lv, of nil True] by (simp add: Some)
    then show ?thesis unfolding unfold ps by (simp add: Some nn)
  qed
qed

subsection \<open>GetConn and Close\<close>

lemma GetConn_cases:
  assumes "GetConn env w p = (r, w')"
  obtains
    (panic) "r = Panics" and "w' = w" and "\<not> live w p"
  | (fails) err where "r = Fails err" and "w' = w" and "openStream env = Inl err"
  | (returns) ms sx n where "deref w p = Some ms" and "session ms = Some sx"
      and "openStream env = Inr n"
      and "r = Returns \<lparr>Conn = conn ms, stream = \<lparr>sess = p, streamId = n\<rparr>\<rparr>"
      and "w' = opened w p ms sx"
proof (cases "deref w p")
  case None
  then have "\<not> live w p" using live_deref by fastforce
  then show ?thesis using assms None panic by (simp add: GetConn_def)
next
  case (Some ms)
  note d = this
  show ?thesis
  proof (cases "session ms")
    case None
    then have "\<not> live w p" using live_deref d by fastforce
    then show ?thesis using assms d None panic by (simp add: GetConn_def)
  next
    case (Some sx)
    show ?thesis
    proof (cases "openStream env")
      case (Inl err)
      then show ?thesis using assms d Some fails by (auto simp: GetConn_def)
    next
      case (Inr n)
      then show ?thesis using assms d Some returns by (simp add: GetConn_def opened_def)
    qed
  qed
qed

lemma opened_fields [simp]:
  "sessions (opened w p ms sx) = sessions w"
  "arrays (opened w p ms sx) = arrays w"
  "nextArray (opened w p ms sx) = nextArray w"
  "nextObj (opened w p ms sx) = nextObj w"
  by (simp_all add: opened_def)

lemma opened_live: "live w q \<Longrightarrow> live (opened w p ms sx) q"
  unfolding opened_def by (rule live_update) simp_all

lemma GetConn_fields:
  assumes "GetConn env w p = (r, w')"
  shows "sessions w' = sessions w \<and> arrays w' = arrays w \<and> nextArray w' = nextArray w \<and>
         nextObj w' = nextObj w"
  using assms by (cases rule: GetConn_cases) simp_all

lemma GetConn_live:
  assumes "GetConn env w p = (r, w')" and "live w q"
  shows "live w' q"
  using assms by (cases rule: GetConn_cases) (simp_all add: opened_live)

lemma GetConn_poolOk:
  assumes "poolOk w" and "GetConn env w p = (r, w')"
  shows "poolOk w'"
  using assms(1)
proof (rule poolOk_frame)
  show "\<And>q. live w q \<Longrightarrow> live w' q" using assms(2) by (rule GetConn_live)
qed (use GetConn_fields [OF assms(2)] in simp_all)

lemma GetConn_sliceOk:
  assumes "sliceOk w sl" and "GetConn env w p = (r, w')"
  shows "sliceOk w' sl"
  using assms(1)
proof (rule sliceOk_frame)
  show "\<And>q. live w q \<Longrightarrow> live w' q" using assms(2) by (rule GetConn_live)
qed (use GetConn_fields [OF assms(2)] in simp_all)

lemma GetConn_elems:
  assumes "GetConn env w p = (r, w')"
  shows "elems w' sl = elems w sl"
  using GetConn_fields [OF assms] by (simp add: elems_def)

lemma GetConn_Fails:
  assumes "GetConn env w p = (Fails err, w')"
  shows "openStream env = Inl err \<and> w' = w"
  using assms by (cases rule: GetConn_cases) simp_all

lemma GetConn_Returns:
  assumes "GetConn env w p = (Returns cc, w')"
  shows "sess (stream cc) = p \<and> \<not> isl (openStream env) \<and>
         NumStreamsAt w' p = NumStreamsAt w p + 1"
  using assms
proof (cases rule: GetConn_cases)
  case (returns ms sx n)
  then have "p \<noteq> nil" by (auto simp: deref_def split: if_splits)
  then show ?thesis using returns
    by (simp add: opened_def NumStreamsAt_def NumStreams_def deref_def)
qed simp_all


lemma CloseAt_fields [simp]:
  "sessions (CloseAt w p) = sessions w"
  "arrays (CloseAt w p) = arrays w"
  "nextArray (CloseAt w p) = nextArray w"
  "nextObj (CloseAt w p) = nextObj w"
  by (simp_all add: CloseAt_def split: option.splits)

lemma Close_session: "session ms \<noteq> None \<Longrightarrow> session (Close ms) \<noteq> None"
  by (auto simp: Close_def)

lemma CloseAt_live:
  assumes "live w q"
  shows "live (CloseAt w p) q"
proof (cases "deref w p")
  case None
  then show ?thesis using assms by (simp add: CloseAt_def)
next
  case (Some ms)
  show ?thesis
  proof (cases "q = p")
    case True
    then have "objs w p = Some ms" using Some by (simp add: deref_def split: if_splits)
    then have "session ms \<noteq> None" using assms True by (simp add: live_def)
    then have "session (Close ms) \<noteq> None" by (rule Close_session)
    then show ?thesis using assms Some by (simp add: CloseAt_def live_update)
  next
    case False
    then show ?thesis using assms Some by (simp add: CloseAt_def live_def)
  qed
qed

lemma IsClosed_Close: "IsClosed (Close ms) = True"
  by (simp add: Close_def IsClosed_def split: option.splits)

lemma CloseAt_closed: "IsClosedAt (CloseAt w p) p"
proof (cases "deref w p")
  case None
  then show ?thesis by (simp add: CloseAt_def IsClosedAt_def)
next
  case (Some ms)
  then have "p \<noteq> nil" by (auto simp: deref_def split: if_splits)
  then show ?thesis using Some by (simp add: CloseAt_def IsClosedAt_def deref_def IsClosed_Close)
qed

lemma CloseAt_poolOk:
  assumes "poolOk w"
  shows "poolOk (CloseAt w p)"
  using assms by (rule poolOk_frame) (simp_all add: CloseAt_live)

lemma multiplexerEvent_fields [simp]:
  "sessions (multiplexerEvent w p sx) = sessions w"
  "arrays (multiplexerEvent w p sx) = arrays w"
  "nextArray (multiplexerEvent w p sx) = nextArray w"
  "nextObj (multiplexerEvent w p sx) = nextObj w"
  by (simp_all add: multiplexerEvent_def split: option.splits)

lemma multiplexerEvent_live:
  assumes "live w q"
  shows "live (multiplexerEvent w p sx) q"
proof (cases "deref w p")
  case None
  then show ?thesis using assms by (simp add: multiplexerEvent_def)
next
  case (Some ms)
  then show ?thesis using assms
    by (cases "session ms") (simp_all add: multiplexerEvent_def live_update)
qed

lemma multiplexerEvent_poolOk:
  assumes "poolOk w"
  shows "poolOk (multiplexerEvent w p sx)"
  using assms by (rule poolOk_frame) (simp_all add: multiplexerEvent_live)

lemma NewMWSSTransporter_poolOk: "poolOk NewMWSSTransporter"
  by (simp add: poolOk_def NewMWSSTransporter_def nil_def)


lemma createSession_cases:
  assumes ok: "poolOk w" and loc: "localOk w sl"
    and c: "createSession maxCnt env w sl = (res, w2)"
  obtains
    (fails) err where "res = Inl err" and "w2 = w" and "\<not> creates env"
  | (created) sl2 where "res = Inr (nextObj w, sl2)" and "creates env" and "poolOk w2"
      and "sessions w2 = sessions w" and "sliceOk w2 sl2" and "live w2 (nextObj w)"
      and "len sl2 = len sl + 1" and "elems w2 sl2 = elems w sl @ [nextObj w]"
      and "deref w2 (nextObj w) = Some (newSession maxCnt env)"
      and "objs w2 = (objs w)(nextObj w := Some (newSession maxCnt env))"
      and "nextObj w2 = nextObj w + 1"
proof (cases "creates env")
  case False
  then obtain err where "createSession maxCnt env w sl = (Inl err, w)"
    using createSession_fail by blast
  then have "res = Inl err" "w2 = w" using c by simp_all
  then show ?thesis using False by (rule fails)
next
  case True
  obtain w'' sl' where a: "appendSession (growCap env) (alloc maxCnt env w) sl (nextObj w) = (w'', sl')"
    by (cases "appendSession (growCap env) (alloc maxCnt env w) sl (nextObj w)")
  have res: "res = Inr (nextObj w, sl')" and w2: "w2 = w''"
    using c createSession_ok [OF True, of maxCnt w sl] a by simp_all
  have nn: "nextObj w \<noteq> nil" using ok by (simp add: poolOk_def)
  let ?wa = "alloc maxCnt env w"
  have oka: "poolOk ?wa" using ok by (rule alloc_poolOk)
  have loca: "localOk ?wa sl" using loc by (rule alloc_localOk)
  have lva: "live ?wa (nextObj w)" using nn by (rule alloc_new_live)
  have f: "objs w'' = objs ?wa" "sessions w'' = sessions ?wa" "len sl' = len sl + 1"
    using appendSession_fields [OF a] by simp_all
  have 1: "poolOk w2" unfolding w2 using oka lva a by (rule appendSession_poolOk)
  have 2: "sessions w2 = sessions w" unfolding w2 using f(2) by simp
  have 3: "sliceOk w2 sl'" unfolding w2 using loca lva a by (rule appendSession_sliceOk)
  have 4: "live w2 (nextObj w)" unfolding w2 using lva by (simp add: appendSession_live [OF a])
  have 5: "elems w2 sl' = elems w sl @ [nextObj w]"
    unfolding w2 using appendSession_elems [OF loca a] by simp
  have 6: "deref w2 (nextObj w) = Some (newSession maxCnt env)"
    unfolding w2 using alloc_deref [OF nn, of maxCnt env] f(1) nn by (simp add: deref_def)
  have 7: "objs w2 = (objs w)(nextObj w := Some (newSession maxCnt env))"
    unfolding w2 using f(1) by (simp add: alloc_def)
  have 8: "nextObj w2 = nextObj w + 1"
    unfolding w2 using appendSession_fields [OF a] by simp
  show ?thesis using res True 1 2 3 4 f(3) 5 6 7 8 by (rule created)
qed

text \<open>The three ways the session is chosen.\<close>

lemma stored_sliceOk:
  assumes "poolOk w" and "s \<in> set (pool w addr)"
  shows "sliceOk w (stored w addr)"
proof (cases "sessions w addr")
  case None
  then show ?thesis using assms(2) by (simp add: pool_def)
next
  case (Some sl)
  then show ?thesis using assms(1) by (simp add: poolOk_def stored_def)
qed

lemma pool_live:
  assumes "poolOk w" and "s \<in> set (pool w addr)"
  shows "live w s"
  using stored_sliceOk [OF assms] assms(2) by (simp add: sliceOk_def pool_stored)

lemma chooseSession_reuse:
  assumes "poolOk w" and "find (underCapacity w) (pool w addr) = Some s"
    and "\<not> IsClosedAt w s"
  shows "chooseSession maxCnt env w addr = (Returns (s, stored w addr), w)"
  using assms by (simp add: chooseSession_def selectSession_cases)

lemma chooseSession_full:
  assumes "poolOk w" and "find (underCapacity w) (pool w addr) = None"
  shows "chooseSession maxCnt env w addr =
     (case createSession maxCnt env w (stored w addr) of
        (Inl err, w2) \<Rightarrow> (Fails err, w2)
      | (Inr (p, sl2), w2) \<Rightarrow> (Returns (p, sl2), w2))"
  using assms by (simp add: chooseSession_def selectSession_cases)

lemma chooseSession_evict:
  assumes "poolOk w" and "find (underCapacity w) (pool w addr) = Some s"
    and "IsClosedAt w s" and "evict w (stored w addr) s = (w1, sl1)"
  shows "chooseSession maxCnt env w addr =
     (case createSession maxCnt env w1 sl1 of
        (Inl err, w2) \<Rightarrow> (Fails err, w2)
      | (Inr (p, sl2), w2) \<Rightarrow> (Returns (p, sl2), w2))"
  using assms by (simp add: chooseSession_def selectSession_cases)


lemma chooseSession_cases:
  assumes ok: "poolOk w" and c: "chooseSession maxCnt env w addr = (r, w1)"
  obtains
    (fails) err where "r = Fails err" and "poolOk w1" and "sessions w1 = sessions w"
      and "\<not> creates env"
  | (reuse) s where "r = Returns (s, stored w addr)" and "w1 = w"
      and "find (underCapacity w) (pool w addr) = Some s" and "\<not> IsClosedAt w s"
      and "sliceOk w (stored w addr)" and "live w s"
  | (fresh) sl where "r = Returns (nextObj w, sl)" and "creates env" and "poolOk w1"
      and "sessions w1 = sessions w" and "sliceOk w1 sl" and "live w1 (nextObj w)"
      and "len (stored w addr) \<le> len sl"
      and "deref w1 (nextObj w) = Some (newSession maxCnt env)"
      and "\<And>s. find (underCapacity w) (pool w addr) = Some s \<Longrightarrow> IsClosedAt w s"
      and "find (underCapacity w) (pool w addr) = None \<Longrightarrow>
           elems w1 sl = pool w addr @ [nextObj w]"
      and "find (underCapacity w) (pool w addr) \<noteq> None \<Longrightarrow> len sl = len (stored w addr)"
      and "objs w1 = (objs w)(nextObj w := Some (newSession maxCnt env))"
      and "nextObj w1 = nextObj w + 1"
proof (cases "find (underCapacity w) (pool w addr)")
  case None
  obtain res w2 where cr: "createSession maxCnt env w (stored w addr) = (res, w2)"
    by (cases "createSession maxCnt env w (stored w addr)")
  have ch: "(r, w1) = (case (res, w2) of
        (Inl err, w2) \<Rightarrow> (Fails err, w2)
      | (Inr (p, sl2), w2) \<Rightarrow> (Returns (p, sl2), w2))"
    using c chooseSession_full [OF ok None, of maxCnt env] cr by simp
  from ok poolOk_stored [OF ok] cr show ?thesis
  proof (cases rule: createSession_cases)
    case (fails err)
    then have "r = Fails err" "w1 = w" using ch by simp_all
    then show ?thesis using ok fails(3) by (intro that(1)) simp_all
  next
    case (created sl2)
    then have r: "r = Returns (nextObj w, sl2)" and w1: "w1 = w2" using ch by simp_all
    have "len (stored w addr) \<le> len sl2" using created(7) by simp
    moreover have "elems w1 sl2 = pool w addr @ [nextObj w]"
      using created(8) w1 by (simp add: pool_stored)
    ultimately show ?thesis
      using r created w1 None by (intro that(3) [of sl2]) simp_all
  qed
next
  case (Some s)
  then have s_in: "s \<in> set (pool w addr)" by (auto dest: find_in_pool)
  show ?thesis
  proof (cases "IsClosedAt w s")
    case False
    have "r = Returns (s, stored w addr)" "w1 = w"
      using c chooseSession_reuse [OF ok Some False, of maxCnt env] by auto
    then show ?thesis
      using Some False stored_sliceOk [OF ok s_in] pool_live [OF ok s_in] by (rule that(2))
  next
    case True
    obtain we sle where ev: "evict w (stored w addr) s = (we, sle)"
      by (cases "evict w (stored w addr) s")
    have oke: "poolOk we" using ok poolOk_stored [OF ok] ev by (rule evict_poolOk)
    have loce: "localOk we sle" using poolOk_stored [OF ok] ev by (rule evict_localOk)
    have fe: "nextObj we = nextObj w" "sessions we = sessions w"
      using evict_fields [OF ev] by simp_all
    have "s \<in> set (elems w (stored w addr))" using s_in by (simp add: pool_stored)
    then have lene: "len sle = len (stored w addr) - 1" using ev by (rule evict_len)
    have "1 \<le> len (stored w addr)"
      using stored_sliceOk [OF ok s_in] by (simp add: sliceOk_def)
    then have lene': "len sle + 1 = len (stored w addr)" using lene by simp
    obtain res w2 where cr: "createSession maxCnt env we sle = (res, w2)"
      by (cases "createSession maxCnt env we sle")
    have ch: "(r, w1) = (case (res, w2) of
          (Inl err, w2) \<Rightarrow> (Fails err, w2)
        | (Inr (p, sl2), w2) \<Rightarrow> (Returns (p, sl2), w2))"
      using c chooseSession_evict [OF ok Some True ev, of maxCnt env] cr by simp
    from oke loce cr show ?thesis
    proof (cases rule: createSession_cases)
      case (fails err)
      then have "r = Fails err" "w1 = we" using ch by simp_all
      then show ?thesis using oke fe(2) fails(3) by (intro that(1)) simp_all
    next
      case (created sl2)
      then have r: "r = Returns (nextObj w, sl2)" and w1: "w1 = w2"
        using ch fe(1) by simp_all
      have "len (stored w addr) \<le> len sl2" "len sl2 = len (stored w addr)"
        using created(7) lene' by simp_all
      moreover have "objs we = objs w" using evict_fields [OF ev] by simp
      ultimately show ?thesis
        using r created w1 Some True fe by (intro that(3) [of sl2]) simp_all
    qed
  qed
qed

lemma stored_update:
  "stored (w\<lparr>sessions := (sessions w)(addr := Some sl)\<rparr>) a = (if a = addr then sl else stored w a)"
  by (simp add: stored_def)

lemma stored_cong: "sessions w' = sessions w \<Longrightarrow> stored w' a = stored w a"
  by (simp add: stored_def)

lemma MaxStreamsAt_frame [simp]:
  "MaxStreamsAt (w\<lparr>sessions := m\<rparr>) p = MaxStreamsAt w p"
  "MaxStreamsAt (w\<lparr>arrays := a\<rparr>) p = MaxStreamsAt w p"
  by (simp_all add: MaxStreamsAt_def)

lemma observers_cong:
  assumes "objs w' q = objs w q"
  shows "NumStreamsAt w' q = NumStreamsAt w q" and "IsClosedAt w' q = IsClosedAt w q"
    and "MaxStreamsAt w' q = MaxStreamsAt w q" and "underCapacity w' q = underCapacity w q"
  using assms
  by (simp_all add: NumStreamsAt_def IsClosedAt_def MaxStreamsAt_def underCapacity_def deref_def)

lemma Dial_cases:
  assumes ok: "poolOk w" and d: "Dial maxCnt env w addr = (r, w')"
  obtains
    (no_session) err where "r = Fails err" and "poolOk w'" and "sessions w' = sessions w"
      and "\<not> creates env"
  | (no_stream) err p where "r = Fails err" and "poolOk w'" and "sessions w' = sessions w"
      and "openStream env = Inl err" and "IsClosedAt w' p"
  | (reused) cc s where "r = Returns cc" and "sess (stream cc) = s"
      and "find (underCapacity w) (pool w addr) = Some s" and "\<not> IsClosedAt w s"
      and "poolOk w'" and "sessions w' = (sessions w)(addr := Some (stored w addr))"
      and "\<not> isl (openStream env)" and "NumStreamsAt w' s = NumStreamsAt w s + 1"
      and "arrays w' = arrays w" and "nextObj w' = nextObj w"
      and "\<And>q. q \<noteq> s \<Longrightarrow> objs w' q = objs w q"
      and "IsClosedAt w' s = IsClosedAt w s"
      and "underCapacity w' s = (NumStreamsAt w s + 1 < MaxStreamsAt w s)"
      and "MaxStreamsAt w' s = MaxStreamsAt w s"
  | (created) cc sl where "r = Returns cc" and "sess (stream cc) = nextObj w"
      and "creates env" and "\<not> isl (openStream env)"
      and "poolOk w'" and "sessions w' = (sessions w)(addr := Some sl)"
      and "len (stored w addr) \<le> len sl"
      and "NumStreamsAt w' (nextObj w) = 1"
      and "\<And>s. find (underCapacity w) (pool w addr) = Some s \<Longrightarrow> IsClosedAt w s"
      and "find (underCapacity w) (pool w addr) = None \<Longrightarrow>
           pool w' addr = pool w addr @ [nextObj w]"
      and "find (underCapacity w) (pool w addr) \<noteq> None \<Longrightarrow> len sl = len (stored w addr)"
      and "nextObj w' = nextObj w + 1"
      and "\<And>q. q \<noteq> nextObj w \<Longrightarrow> objs w' q = objs w q"
      and "\<not> IsClosedAt w' (nextObj w)"
      and "underCapacity w' (nextObj w) = (1 < maxCnt)"
      and "MaxStreamsAt w' (nextObj w) = maxCnt"
proof -
  obtain rc w1 where c: "chooseSession maxCnt env w addr = (rc, w1)"
    by (cases "chooseSession maxCnt env w addr")
  from ok c show ?thesis
  proof (cases rule: chooseSession_cases)
    case (fails err)
    then have "r = Fails err" "w' = w1" using d c by (simp_all add: Dial_def)
    then show ?thesis using fails by (intro no_session) simp_all
  next
    case (reuse s)
    obtain rg w2 where g: "GetConn env w s = (rg, w2)" by (cases "GetConn env w s")
    have ok2: "poolOk w2" using ok g by (rule GetConn_poolOk)
    note f2 = GetConn_fields [OF g]
    have dd: "(r, w') = (case (rg, w2) of
            (Panics, w2) \<Rightarrow> (Panics, w2)
          | (Fails err, w2) \<Rightarrow> (Fails err, CloseAt w2 s)
          | (Returns cc, w2) \<Rightarrow>
             (Returns cc, w2\<lparr>sessions := (sessions w2)(addr := Some (stored w addr))\<rparr>))"
      using d c g reuse(1,2) by (simp add: Dial_def)
    from g show ?thesis
    proof (cases rule: GetConn_cases)
      case panic
      then show ?thesis using reuse(6) by simp
    next
      case (fails err)
      then have "r = Fails err" "w' = CloseAt w s" using dd by simp_all
      then show ?thesis
        using CloseAt_poolOk [OF ok, of s] fails(3) CloseAt_closed [of w s]
        by (intro no_stream [of err s]) simp_all
    next
      case (returns ms sx n)
      let ?cc = "\<lparr>Conn = conn ms, stream = \<lparr>sess = s, streamId = n\<rparr>\<rparr>"
      let ?w = "w2\<lparr>sessions := (sessions w2)(addr := Some (stored w addr))\<rparr>"
      have rw: "r = Returns ?cc" "w' = ?w" using dd returns(4) by simp_all
      have gr: "GetConn env w s = (Returns ?cc, w2)" using g returns(4) by simp
      have "sliceOk w2 (stored w addr)" using reuse(5) g by (rule GetConn_sliceOk)
      then have okw: "poolOk ?w" using ok2 by (intro poolOk_store)
      have num: "NumStreamsAt ?w s = NumStreamsAt w s + 1"
        using GetConn_Returns [OF gr] by simp
      have sn: "s \<noteq> nil" using returns(1) by (auto simp: deref_def split: if_splits)
      have o: "\<And>q. q \<noteq> s \<Longrightarrow> objs ?w q = objs w q"
        using returns(5) by (simp add: opened_def)
      have cl: "IsClosedAt ?w s = IsClosedAt w s"
        using returns(1,2,5) sn by (simp add: opened_def IsClosedAt_def IsClosed_def deref_def)
      have uc: "underCapacity ?w s = (NumStreamsAt w s + 1 < MaxStreamsAt w s)"
        using returns(1,2,5) sn
        by (auto simp: opened_def underCapacity_def NumStreamsAt_def NumStreams_def deref_def
            MaxStreamsAt_def)
      have mx: "MaxStreamsAt ?w s = MaxStreamsAt w s"
        using returns(1,2,5) sn by (simp add: opened_def MaxStreamsAt_def deref_def)
      have "\<not> isl (openStream env)" using returns(3) by simp
      then show ?thesis
        using rw okw num reuse(3,4) f2 o cl uc mx
        by (intro reused [of ?cc s]) simp_all
    qed
  next
    case (fresh sl)
    let ?p = "nextObj w"
    obtain rg w2 where g: "GetConn env w1 ?p = (rg, w2)" by (cases "GetConn env w1 ?p")
    have ok2: "poolOk w2" using fresh(3) g by (rule GetConn_poolOk)
    note f2 = GetConn_fields [OF g]
    have dd: "(r, w') = (case (rg, w2) of
            (Panics, w2) \<Rightarrow> (Panics, w2)
          | (Fails err, w2) \<Rightarrow> (Fails err, CloseAt w2 ?p)
          | (Returns cc, w2) \<Rightarrow>
             (Returns cc, w2\<lparr>sessions := (sessions w2)(addr := Some sl)\<rparr>))"
      using d c g fresh(1) by (simp add: Dial_def)
    from g show ?thesis
    proof (cases rule: GetConn_cases)
      case panic
      then show ?thesis using fresh(6) by simp
    next
      case (fails err)
      then have "r = Fails err" "w' = CloseAt w1 ?p" using dd by simp_all
      then show ?thesis
        using CloseAt_poolOk [OF fresh(3), of ?p] fails(3) CloseAt_closed [of w1 ?p] fresh(4)
        by (intro no_stream [of err ?p]) simp_all
    next
      case (returns ms sx n)
      let ?cc = "\<lparr>Conn = conn ms, stream = \<lparr>sess = ?p, streamId = n\<rparr>\<rparr>"
      let ?w = "w2\<lparr>sessions := (sessions w2)(addr := Some sl)\<rparr>"
      have rw: "r = Returns ?cc" "w' = ?w" using dd returns(4) by simp_all
      have gr: "GetConn env w1 ?p = (Returns ?cc, w2)" using g returns(4) by simp
      have "sliceOk w2 sl" using fresh(5) g by (rule GetConn_sliceOk)
      then have okw: "poolOk ?w" using ok2 by (intro poolOk_store)
      have "NumStreamsAt w1 ?p = 0"
        using fresh(8) by (simp add: NumStreamsAt_def NumStreams_def newSession_def)
      then have num: "NumStreamsAt ?w ?p = 1"
        using GetConn_Returns [OF gr] by simp
      have sw: "sessions w2 = sessions w" using f2 fresh(4) by simp
      have pl: "find (underCapacity w) (pool w addr) = None \<Longrightarrow>
           pool ?w addr = pool w addr @ [?p]"
        using fresh(10) GetConn_elems [OF g, of sl] by (simp add: pool_def elems_def)
      have pn: "?p \<noteq> nil" using returns(1) by (auto simp: deref_def split: if_splits)
      have ms: "ms = newSession maxCnt env" using returns(1) fresh(8) by simp
      have o: "\<And>q. q \<noteq> ?p \<Longrightarrow> objs ?w q = objs w q"
        using returns(5) fresh(12) by (simp add: opened_def)
      have sx: "sx = \<lparr>sessClosed = False, numStreams = 0\<rparr>"
        using returns(2) ms by (simp add: newSession_def)
      have cl: "\<not> IsClosedAt ?w ?p"
        using returns(5) pn
        by (simp add: sx opened_def IsClosedAt_def IsClosed_def deref_def)
      have uc: "underCapacity ?w ?p = (1 < maxCnt)"
        using returns(5) pn
        by (auto simp: sx ms opened_def underCapacity_def deref_def newSession_def)
      have mx: "MaxStreamsAt ?w ?p = maxCnt"
        using returns(5) pn by (simp add: sx ms opened_def MaxStreamsAt_def deref_def newSession_def)
      have no: "nextObj ?w = nextObj w + 1" using f2 fresh(13) by simp
      have "\<not> isl (openStream env)" using returns(3) by simp
      then show ?thesis
        using rw fresh(2) okw sw fresh(7) num fresh(9) pl fresh(11) no o cl uc mx
        by (intro created [of ?cc sl]) simp_all
    qed
  qed
qed


subsection \<open>The stored collection after a successful call\<close>

text \<open>A successful call whose scan selects a closed session.\<close>

lemma Dial_evicts:
  assumes ok: "poolOk w" and fit: "find (underCapacity w) (pool w addr) = Some s"
    and cl: "IsClosedAt w s" and d: "Dial maxCnt env w addr = (Returns cc, w')"
  shows "pool w' addr = swapRemove s (pool w addr) @ [nextObj w]"
proof -
  obtain we sle where ev: "evict w (stored w addr) s = (we, sle)"
    by (cases "evict w (stored w addr) s")
  have loc: "localOk w (stored w addr)" using ok by (rule poolOk_stored)
  have oke: "poolOk we" using ok loc ev by (rule evict_poolOk)
  have loce: "localOk we sle" using loc ev by (rule evict_localOk)
  have ee: "elems we sle = swapRemove s (pool w addr)"
    using evict_elems [OF loc ev] by (simp add: pool_stored)
  have ne: "nextObj we = nextObj w" using evict_fields [OF ev] by simp
  obtain res w2 where cr: "createSession maxCnt env we sle = (res, w2)"
    by (cases "createSession maxCnt env we sle")
  have ch: "chooseSession maxCnt env w addr = (case (res, w2) of
        (Inl err, w2) \<Rightarrow> (Fails err, w2)
      | (Inr (p, sl2), w2) \<Rightarrow> (Returns (p, sl2), w2))"
    using chooseSession_evict [OF ok fit cl ev, of maxCnt env] cr by simp
  from oke loce cr show ?thesis
  proof (cases rule: createSession_cases)
    case (fails err)
    then have "chooseSession maxCnt env w addr = (Fails err, we)" using ch by simp
    then show ?thesis using d by (simp add: Dial_def)
  next
    case (created sl2)
    then have c: "chooseSession maxCnt env w addr = (Returns (nextObj w, sl2), w2)"
      using ch ne by simp
    obtain rg w3 where g: "GetConn env w2 (nextObj w) = (rg, w3)"
      by (cases "GetConn env w2 (nextObj w)")
    have dd: "(Returns cc, w') = (case (rg, w3) of
            (Panics, w3) \<Rightarrow> (Panics, w3)
          | (Fails err, w3) \<Rightarrow> (Fails err, CloseAt w3 (nextObj w))
          | (Returns cc, w3) \<Rightarrow>
             (Returns cc, w3\<lparr>sessions := (sessions w3)(addr := Some sl2)\<rparr>))"
      using d c g by (simp add: Dial_def)
    then have w': "w' = w3\<lparr>sessions := (sessions w3)(addr := Some sl2)\<rparr>"
      by (cases rg) simp_all
    have "pool w' addr = elems w3 sl2" unfolding w' by (simp add: pool_def elems_def)
    also have "\<dots> = elems w2 sl2" using g by (rule GetConn_elems)
    also have "\<dots> = swapRemove s (pool w addr) @ [nextObj w]"
      using created(8) ee ne by simp
    finally show ?thesis .
  qed
qed

text \<open>A successful call whose scan selects an open session.\<close>

lemma Dial_keeps:
  assumes ok: "poolOk w" and fit: "find (underCapacity w) (pool w addr) = Some s"
    and op: "\<not> IsClosedAt w s" and d: "Dial maxCnt env w addr = (Returns cc, w')"
  shows "pool w' addr = pool w addr"
  using ok d
proof (cases rule: Dial_cases)
  case (reused cc' s')
  have "s \<in> set (pool w addr)" using fit by (auto dest: find_in_pool)
  then have "sessions w addr \<noteq> None" by (cases "sessions w addr") (simp_all add: pool_def)
  then show ?thesis using reused(6,9) by (auto simp: pool_def stored_def elems_def)
next
  case (created cc' sl)
  then show ?thesis using fit op by simp
qed simp_all

text \<open>A successful call whose scan selects no session.\<close>

lemma Dial_appends:
  assumes ok: "poolOk w" and full: "find (underCapacity w) (pool w addr) = None"
    and d: "Dial maxCnt env w addr = (Returns cc, w')"
  shows "pool w' addr = pool w addr @ [nextObj w]"
  using ok d
proof (cases rule: Dial_cases)
  case (reused cc' s')
  then show ?thesis using full by simp
next
  case (created cc' sl)
  then show ?thesis using full by simp
qed simp_all

subsection \<open>The concrete pools\<close>

lemmas dial_eval =
  okEnv_def dialRefused_def streamRefused_def pool1_def pool2_def pool3_def poolStale_def
  poolLone_def Dial_def chooseSession_def selectSession_def createSession_def initSession_def
  appendSession_def GetConn_def evict_def elems_def pool_def NewMWSSTransporter_def
  nilSlice_def nil_def deref_def IsClosedAt_def IsClosed_def CloseAt_def Close_def
  multiplexerEvent_def NumStreamsAt_def NumStreams_def underCapacity_def specFirstUsable_def
  Let_def

lemma Dial_poolOk:
  assumes "poolOk w" and "Dial maxCnt env w addr = (r, w')"
  shows "poolOk w'" and "r \<noteq> Panics"
  using assms by (cases rule: Dial_cases; simp)+

lemma Dial_poolOk_snd: "poolOk w \<Longrightarrow> poolOk (snd (Dial maxCnt env w addr))"
  using Dial_poolOk(1) [of w maxCnt env addr] by (cases "Dial maxCnt env w addr") simp

lemma reachable_poolOk: "reachable maxCnt w \<Longrightarrow> poolOk w"
proof (induction rule: reachable.induct)
  case start
  show ?case by (rule NewMWSSTransporter_poolOk)
next
  case (dial w env addr r w')
  then show ?case using Dial_poolOk(1) by blast
next
  case (event w p sx)
  then show ?case by (simp add: multiplexerEvent_poolOk)
qed

lemma pool_length: "poolOk w \<Longrightarrow> length (pool w a) = len (stored w a)"
  using localOk_length [OF poolOk_stored] by (simp add: pool_stored)

lemma live_lt: "live w p \<Longrightarrow> p < nextObj w"
  by (simp add: live_def)

lemma pool1_poolOk: "poolOk pool1"
  unfolding pool1_def by (intro Dial_poolOk_snd NewMWSSTransporter_poolOk)

lemma pool2_poolOk: "poolOk pool2"
  unfolding pool2_def by (intro Dial_poolOk_snd pool1_poolOk)

lemma poolStale_poolOk: "poolOk poolStale"
  unfolding poolStale_def pool3_def pool2_def pool1_def
  by (intro multiplexerEvent_poolOk Dial_poolOk_snd NewMWSSTransporter_poolOk)

lemma poolLone_poolOk: "poolOk poolLone"
  unfolding poolLone_def pool1_def
  by (intro multiplexerEvent_poolOk Dial_poolOk_snd NewMWSSTransporter_poolOk)

lemma pool3_value:
  "pool pool3 ''x'' = [1, 2] \<and> NumStreamsAt pool3 1 = 2 \<and> NumStreamsAt pool3 2 = 1"
  by (simp add: dial_eval)

lemma poolStale_value:
  "pool poolStale ''x'' = [1, 2] \<and> IsClosedAt poolStale 1 \<and> NumStreamsAt poolStale 1 = 0
   \<and> \<not> IsClosedAt poolStale 2 \<and> NumStreamsAt poolStale 2 = 1"
  by (simp add: dial_eval)

lemma reachable_snd:
  assumes "reachable maxCnt w" and "fst (Dial maxCnt env w addr) \<noteq> Panics"
  shows "reachable maxCnt (snd (Dial maxCnt env w addr))"
  using assms(1) _ assms(2) by (rule reachable.dial) simp

lemma reachable_poolStale: "reachable 2 poolStale"
proof -
  have 1: "reachable 2 pool1"
    unfolding pool1_def by (rule reachable_snd [OF reachable.start]) (simp add: dial_eval)
  have 2: "reachable 2 pool2"
    unfolding pool2_def by (rule reachable_snd [OF 1]) (simp add: dial_eval)
  have 3: "reachable 2 pool3"
    unfolding pool3_def by (rule reachable_snd [OF 2]) (simp add: dial_eval)
  show ?thesis unfolding poolStale_def using 3 by (rule reachable.event)
qed

lemma reachable_poolLone: "reachable 2 poolLone"
proof -
  have 1: "reachable 2 pool1"
    unfolding pool1_def by (rule reachable_snd [OF reachable.start]) (simp add: dial_eval)
  show ?thesis unfolding poolLone_def using 1 by (rule reachable.event)
qed

lemma succeeds_creates: "succeeds env \<Longrightarrow> creates env"
  by (simp add: succeeds_def)

lemma succeeds_opens: "succeeds env \<Longrightarrow> \<not> isl (openStream env)"
  by (simp add: succeeds_def)

text \<open>A call that finds every session full, and whose external steps succeed.\<close>

lemma Dial_all_full:
  assumes ok: "poolOk w" and full: "find (underCapacity w) (pool w addr) = None"
    and env: "succeeds env" and d: "Dial maxCnt env w addr = (r, w')"
  obtains cc where "r = Returns cc" and "sess (stream cc) = nextObj w" and "poolOk w'"
    and "pool w' addr = pool w addr @ [nextObj w]" and "NumStreamsAt w' (nextObj w) = 1"
    and "nextObj w' = nextObj w + 1" and "\<And>q. q \<noteq> nextObj w \<Longrightarrow> objs w' q = objs w q"
    and "\<not> IsClosedAt w' (nextObj w)" and "underCapacity w' (nextObj w) = (1 < maxCnt)"
    and "MaxStreamsAt w' (nextObj w) = maxCnt"
  using ok d
proof (cases rule: Dial_cases)
  case (no_session err)
  then show ?thesis using env by (simp add: succeeds_def)
next
  case (no_stream err p)
  then show ?thesis using env by (simp add: succeeds_def)
next
  case (reused cc s)
  then show ?thesis using full by simp
next
  case (created cc sl)
  show ?thesis
    using created(1,2,5) created(10) [OF full] created(8,12,13,14,15,16) by (rule that)
qed

text \<open>A call that finds an open session with room, and whose external steps succeed.\<close>

lemma Dial_room:
  assumes ok: "poolOk w" and fit: "find (underCapacity w) (pool w addr) = Some s"
    and op: "\<not> IsClosedAt w s" and env: "succeeds env" and d: "Dial maxCnt env w addr = (r, w')"
  obtains cc where "r = Returns cc" and "sess (stream cc) = s" and "poolOk w'"
    and "pool w' addr = pool w addr" and "NumStreamsAt w' s = NumStreamsAt w s + 1"
    and "nextObj w' = nextObj w" and "\<And>q. q \<noteq> s \<Longrightarrow> objs w' q = objs w q"
    and "IsClosedAt w' s = IsClosedAt w s"
    and "underCapacity w' s = (NumStreamsAt w s + 1 < MaxStreamsAt w s)"
    and "MaxStreamsAt w' s = MaxStreamsAt w s"
  using ok d
proof (cases rule: Dial_cases)
  case (no_session err)
  then show ?thesis using env by (simp add: succeeds_def)
next
  case (no_stream err p)
  then show ?thesis using env by (simp add: succeeds_def)
next
  case (reused cc s')
  have s': "s' = s" using reused(3) fit by simp
  have "s \<in> set (pool w addr)" using fit by (auto dest: find_in_pool)
  then have "sessions w addr \<noteq> None" by (cases "sessions w addr") (simp_all add: pool_def)
  then have "pool w' addr = pool w addr"
    using reused(6,9) by (auto simp: pool_def stored_def elems_def)
  then show ?thesis
    using reused(1,2,5,8,10,11,12,13,14) unfolding s' by (intro that [of cc]) simp_all
next
  case (created cc sl)
  then show ?thesis using fit op by simp
qed

lemma three_dials:
  assumes e: "succeeds e1" "succeeds e2" "succeeds e3"
    and d1: "Dial 2 e1 NewMWSSTransporter addr = (r1, w1)"
    and d2: "Dial 2 e2 w1 addr = (r2, w2)"
    and d3: "Dial 2 e3 w2 addr = (r3, w3)"
  shows "\<exists>c1 c2 c3. r1 = Returns c1 \<and> r2 = Returns c2 \<and> r3 = Returns c3 \<and>
     sess (stream c1) = 1 \<and> pool w1 addr = [1] \<and> NumStreamsAt w1 1 = 1 \<and>
     sess (stream c2) = 1 \<and> pool w2 addr = [1] \<and> NumStreamsAt w2 1 = 2 \<and>
     sess (stream c3) = 2 \<and> pool w3 addr = [1, 2] \<and> NumStreamsAt w3 2 = 1 \<and>
     NumStreamsAt w3 1 = 2"
proof -
  let ?w0 = NewMWSSTransporter
  have ok0: "poolOk ?w0" by (rule NewMWSSTransporter_poolOk)
  have p0: "pool ?w0 addr = []" "nextObj ?w0 = 1"
    by (simp_all add: pool_def NewMWSSTransporter_def)
  then have f0: "find (underCapacity ?w0) (pool ?w0 addr) = None" by simp
  from ok0 f0 e(1) d1 obtain c1 where 1: "r1 = Returns c1" "sess (stream c1) = 1" "poolOk w1"
    "pool w1 addr = [1]" "NumStreamsAt w1 1 = 1" "nextObj w1 = 2"
    "\<not> IsClosedAt w1 1" "underCapacity w1 1" "MaxStreamsAt w1 1 = 2"
  proof (cases rule: Dial_all_full)
    case (1 cc)
    then show ?thesis using p0 by (intro that [of cc]) simp_all
  qed
  have f1: "find (underCapacity w1) (pool w1 addr) = Some 1" using 1(4,8) by simp
  from 1(3) f1 1(7) e(2) d2 obtain c2 where 2: "r2 = Returns c2" "sess (stream c2) = 1"
    "poolOk w2" "pool w2 addr = [1]" "NumStreamsAt w2 1 = 2" "nextObj w2 = 2"
    "\<not> underCapacity w2 1"
  proof (cases rule: Dial_room)
    case (1 cc)
    then show ?thesis using \<open>pool w1 addr = [1]\<close> \<open>NumStreamsAt w1 1 = 1\<close>
        \<open>nextObj w1 = 2\<close> \<open>MaxStreamsAt w1 1 = 2\<close>
      by (intro that [of cc]) simp_all
  qed
  have f2: "find (underCapacity w2) (pool w2 addr) = None" using 2(4,7) by simp
  from 2(3) f2 e(3) d3 obtain c3 where 3: "r3 = Returns c3" "sess (stream c3) = 2"
    "pool w3 addr = [1, 2]" "NumStreamsAt w3 2 = 1" "objs w3 1 = objs w2 1"
  proof (cases rule: Dial_all_full)
    case (1 cc)
    then show ?thesis using 2(4,6) by (intro that [of cc]) simp_all
  qed
  have "NumStreamsAt w3 1 = 2" using observers_cong(1) [OF 3(5)] 2(5) by simp
  then show ?thesis using 1 2 3 by simp
qed

text \<open>
  A collection that holds a closed session twice keeps one entry of it after the
  eviction: only the first entry is overwritten, here by the second.
\<close>

lemma duplicate_entry_survives:
  "pool poolTwice ''x'' = [2, 2] \<and> IsClosedAt poolTwice 2 \<and>
   fst (Dial 2 (okEnv 2 3) poolTwice ''x'') =
     Returns \<lparr>Conn = 8, stream = \<lparr>sess = 3, streamId = 3\<rparr>\<rparr> \<and>
   pool (snd (Dial 2 (okEnv 2 3) poolTwice ''x'')) ''x'' = [2, 3]"
  by (simp add: dial_eval poolTwice_def)

subsection \<open>The claims on Dial\<close>

text \<open>
  C1, as stated, fails. In \<open>poolStale\<close> the first session is closed and counts no
  streams, the second is open with one stream of two. The first session that is not
  closed and below its maximum is the second one; the scan selects the first one, and
  the stream is opened from a third, newly created session.
\<close>

theorem first_usable_counterexample:
  "reachable 2 poolStale \<and> pool poolStale ''x'' = [1, 2] \<and>
   specFirstUsable poolStale (pool poolStale ''x'') = Some 2 \<and>
   scanLoop poolStale (pool poolStale ''x'') nil True = Some (1, True) \<and>
   fst (Dial 2 (okEnv 2 3) poolStale ''x'') =
     Returns \<lparr>Conn = 8, stream = \<lparr>sess = 3, streamId = 3\<rparr>\<rparr>"
  using reachable_poolStale by (simp add: dial_eval)

text \<open>
  C1, amended. The scan selects the first session whose stream count is below its
  maximum, closed or not. When the selected session is closed the stream is opened
  from a newly created session (no later session is tried), and after a successful
  call the stored collection is the old one with the first entry of the selected
  session overwritten by the last entry, the last slot dropped and the new session
  appended. When the selected session is open the stream is opened from it and the
  collection is unchanged; when none is selected the new session is appended. A session
  of the collection that is closed or at its maximum when \<open>Dial\<close> is called is never
  the one the stream is opened from.
\<close>

theorem scan_first_fit:
  assumes "poolOk w" and "Dial maxCnt env w addr = (r, w')"
  shows "scanLoop w (pool w addr) nil ok =
           Some (case find (underCapacity w) (pool w addr) of
                   None \<Rightarrow> (nil, if pool w addr = [] then ok else False)
                 | Some s \<Rightarrow> (s, True)) \<and>
         (\<forall>cc. r = Returns cc \<longrightarrow>
            (\<forall>p\<in>set (pool w addr).
                IsClosedAt w p \<or> \<not> underCapacity w p \<longrightarrow> sess (stream cc) \<noteq> p) \<and>
            (\<forall>s. find (underCapacity w) (pool w addr) = Some s \<longrightarrow>
                sess (stream cc) = (if IsClosedAt w s then nextObj w else s) \<and>
                pool w' addr = (if IsClosedAt w s
                                then swapRemove s (pool w addr) @ [nextObj w]
                                else pool w addr)) \<and>
            (find (underCapacity w) (pool w addr) = None \<longrightarrow>
                sess (stream cc) = nextObj w \<and> pool w' addr = pool w addr @ [nextObj w]))"
proof -
  have lv: "\<forall>p\<in>set (pool w addr). live w p" using assms(1) by (simp add: pool_live)
  have scan: "scanLoop w (pool w addr) nil ok =
           Some (case find (underCapacity w) (pool w addr) of
                   None \<Rightarrow> (nil, if pool w addr = [] then ok else False)
                 | Some s \<Rightarrow> (s, True))"
    using lv by (rule scanLoop_find)
  have src: "\<forall>cc. r = Returns cc \<longrightarrow>
            (\<forall>p\<in>set (pool w addr).
                IsClosedAt w p \<or> \<not> underCapacity w p \<longrightarrow> sess (stream cc) \<noteq> p) \<and>
            (\<forall>s. find (underCapacity w) (pool w addr) = Some s \<longrightarrow>
                sess (stream cc) = (if IsClosedAt w s then nextObj w else s)) \<and>
            (find (underCapacity w) (pool w addr) = None \<longrightarrow> sess (stream cc) = nextObj w)"
    using assms
  proof (cases rule: Dial_cases)
    case (reused cc s)
    have "underCapacity w s" using reused(3) by (auto dest: find_in_pool)
    then show ?thesis using reused(1-4) by auto
  next
    case (created cc sl)
    have "\<forall>p\<in>set (pool w addr). p \<noteq> nextObj w" using lv live_lt by fastforce
    then show ?thesis using created(1,2,9) by auto
  qed simp_all
  have after: "pool w' addr = (if IsClosedAt w s
                                then swapRemove s (pool w addr) @ [nextObj w]
                                else pool w addr)"
    if "r = Returns cc" and "find (underCapacity w) (pool w addr) = Some s" for cc s
    using Dial_evicts [OF assms(1) that(2)] Dial_keeps [OF assms(1) that(2)] assms(2) that(1)
    by simp
  have app: "pool w' addr = pool w addr @ [nextObj w]"
    if "r = Returns cc" and "find (underCapacity w) (pool w addr) = None" for cc
    using Dial_appends [OF assms(1) that(2)] assms(2) that(1) by simp
  show ?thesis using scan src after app by simp
qed

theorem scan_first_fit_witness:
  "poolOk poolStale \<and>
   scanLoop poolStale (pool poolStale ''x'') nil True = Some (1, True) \<and>
   IsClosedAt poolStale 1 \<and> nextObj poolStale = 3 \<and>
   fst (Dial 2 (okEnv 2 3) poolStale ''x'') =
     Returns \<lparr>Conn = 8, stream = \<lparr>sess = 3, streamId = 3\<rparr>\<rparr> \<and>
   pool (snd (Dial 2 (okEnv 2 3) poolStale ''x'')) ''x'' = [2, 3]"
proof -
  have d: "Dial 2 (okEnv 2 3) poolStale ''x'' =
      (Returns \<lparr>Conn = 8, stream = \<lparr>sess = 3, streamId = 3\<rparr>\<rparr>,
       snd (Dial 2 (okEnv 2 3) poolStale ''x''))"
    by (simp add: dial_eval)
  have v: "pool poolStale ''x'' = [1, 2]" "IsClosedAt poolStale 1" "nextObj poolStale = 3"
    "underCapacity poolStale 1"
    by (simp_all add: dial_eval)
  have f: "fst (Dial 2 (okEnv 2 3) poolStale ''x'') =
      Returns \<lparr>Conn = 8, stream = \<lparr>sess = 3, streamId = 3\<rparr>\<rparr>"
    by (simp add: dial_eval)
  have sr: "swapRemove 1 [1, 2] = [2]" by (simp add: swapRemove_def)
  show ?thesis
    using poolStale_poolOk scan_first_fit [OF poolStale_poolOk d, of True] v f sr by simp
qed

text \<open>
  C2 fails on the code. From \<open>poolStale\<close>, a call whose TCP dial is refused returns the
  error after the eviction has written the last element over the closed one in the
  shared backing array; the stored header keeps its length, so the stored collection
  holds the second session twice.
\<close>

theorem failed_dial_leaves_duplicate:
  "reachable 2 poolStale \<and> pool poolStale ''x'' = [1, 2] \<and>
   fst (Dial 2 dialRefused poolStale ''x'') = Fails (OtherError ''connection refused'') \<and>
   reachable 2 (snd (Dial 2 dialRefused poolStale ''x'')) \<and>
   pool (snd (Dial 2 dialRefused poolStale ''x'')) ''x'' = [2, 2] \<and>
   \<not> distinct (pool (snd (Dial 2 dialRefused poolStale ''x'')) ''x'')"
proof -
  have f: "fst (Dial 2 dialRefused poolStale ''x'') = Fails (OtherError ''connection refused'')"
    by (simp add: dial_eval)
  then have "reachable 2 (snd (Dial 2 dialRefused poolStale ''x''))"
    by (intro reachable_snd reachable_poolStale) simp
  moreover have "pool (snd (Dial 2 dialRefused poolStale ''x'')) ''x'' = [2, 2]"
    by (simp add: dial_eval)
  moreover have "pool poolStale ''x'' = [1, 2]"
    by (simp add: dial_eval)
  ultimately show ?thesis using f reachable_poolStale by simp
qed

text \<open>
  C3. The scan never selects a session whose stream count has reached its maximum.
  When every session of the address is at its maximum, a stream that \<open>Dial\<close> returns
  comes from a new session, and when the external steps succeed the new session is
  appended to the collection with one stream. With a maximum of two, three calls in a
  row on an empty pool open their streams from session 1 (one stream, then two) and
  from a second session (one stream).
\<close>

theorem full_session_never_selected:
  assumes "poolOk w" and "\<forall>p\<in>set (pool w addr). \<not> underCapacity w p"
    and "Dial maxCnt env w addr = (r, w')"
  shows "(\<forall>ss ok sel ok'. scanLoop w ss nil ok = Some (sel, ok') \<and> sel \<noteq> nil \<longrightarrow>
            underCapacity w sel) \<and>
         (\<forall>cc. r = Returns cc \<longrightarrow> sess (stream cc) = nextObj w \<and>
            nextObj w \<notin> set (pool w addr)) \<and>
         (succeeds env \<longrightarrow>
            (\<exists>cc. r = Returns cc) \<and> pool w' addr = pool w addr @ [nextObj w] \<and>
            NumStreamsAt w' (nextObj w) = 1) \<and>
         (\<forall>e1 e2 e3 a r1 w1 r2 w2 r3 w3.
            succeeds e1 \<and> succeeds e2 \<and> succeeds e3 \<and>
            Dial 2 e1 NewMWSSTransporter a = (r1, w1) \<and> Dial 2 e2 w1 a = (r2, w2) \<and>
            Dial 2 e3 w2 a = (r3, w3) \<longrightarrow>
            (\<exists>c1 c2 c3. r1 = Returns c1 \<and> r2 = Returns c2 \<and> r3 = Returns c3 \<and>
               sess (stream c1) = 1 \<and> pool w1 a = [1] \<and> NumStreamsAt w1 1 = 1 \<and>
               sess (stream c2) = 1 \<and> pool w2 a = [1] \<and> NumStreamsAt w2 1 = 2 \<and>
               sess (stream c3) = 2 \<and> pool w3 a = [1, 2] \<and> NumStreamsAt w3 2 = 1 \<and>
               NumStreamsAt w3 1 = 2))"
proof -
  have full: "find (underCapacity w) (pool w addr) = None" using assms(2) by (simp add: find_None_iff)
  have a: "\<forall>ss ok sel ok'. scanLoop w ss nil ok = Some (sel, ok') \<and> sel \<noteq> nil \<longrightarrow>
            underCapacity w sel"
    using scanLoop_selected by blast
  have fresh: "nextObj w \<notin> set (pool w addr)"
    using pool_live [OF assms(1)] live_lt by fastforce
  have b: "\<forall>cc. r = Returns cc \<longrightarrow> sess (stream cc) = nextObj w \<and>
            nextObj w \<notin> set (pool w addr)"
    using assms(1,3)
  proof (cases rule: Dial_cases)
    case (reused cc s)
    then show ?thesis using full by simp
  next
    case (created cc sl)
    then show ?thesis using fresh by simp
  qed simp_all
  have c: "(\<exists>cc. r = Returns cc) \<and> pool w' addr = pool w addr @ [nextObj w] \<and>
            NumStreamsAt w' (nextObj w) = 1" if "succeeds env"
    using assms(1) full that assms(3) by (cases rule: Dial_all_full) simp
  show ?thesis using a b c three_dials by blast
qed

theorem full_session_never_selected_witness:
  "poolOk pool2 \<and> list_all (\<lambda>p. \<not> underCapacity pool2 p) (pool pool2 ''x'') \<and>
   succeeds (okEnv 2 3) \<and> pool pool2 ''x'' = [1] \<and> NumStreamsAt pool2 1 = 2 \<and>
   pool pool3 ''x'' = [1, 2] \<and> NumStreamsAt pool3 2 = 1"
proof -
  have d: "Dial 2 (okEnv 2 3) pool2 ''x'' = (fst (Dial 2 (okEnv 2 3) pool2 ''x''), pool3)"
    by (simp add: pool3_def)
  have v: "pool pool2 ''x'' = [1]" "NumStreamsAt pool2 1 = 2" "\<not> underCapacity pool2 1"
    "nextObj pool2 = 2"
    by (simp_all add: dial_eval)
  have h: "\<forall>p\<in>set (pool pool2 ''x''). \<not> underCapacity pool2 p" using v by simp
  have s: "succeeds (okEnv 2 3)" by (simp add: succeeds_def creates_def okEnv_def)
  show ?thesis
    using pool2_poolOk s v full_session_never_selected [OF pool2_poolOk h d] by simp
qed

text \<open>
  C4, as stated, fails. In \<open>poolLone\<close> the only session is closed. The next call opens
  its stream from a new session, which takes the slot of the evicted one: the
  collection holds one session before and one after.
\<close>

theorem closed_session_size_counterexample:
  "reachable 2 poolLone \<and> pool poolLone ''x'' = [1] \<and> IsClosedAt poolLone 1 \<and>
   fst (Dial 2 (okEnv 2 3) poolLone ''x'') =
     Returns \<lparr>Conn = 8, stream = \<lparr>sess = 2, streamId = 3\<rparr>\<rparr> \<and>
   pool (snd (Dial 2 (okEnv 2 3) poolLone ''x'')) ''x'' = [2] \<and>
   length (pool (snd (Dial 2 (okEnv 2 3) poolLone ''x'')) ''x'') \<noteq>
     length (pool poolLone ''x'') - 1"
  using reachable_poolLone by (simp add: dial_eval)

text \<open>
  C4, amended. If a session in the collection of an address is closed, the next
  \<open>Dial\<close> for that address does not panic and does not return a stream of that
  session. When the call succeeds and the scan selected the closed session, its first
  entry is overwritten by the last entry of the collection, the last slot is dropped and
  the new session is appended: the size is unchanged, and the closed session is no
  longer in the collection if the collection held no session twice. When the call
  succeeds and the scan did not select the closed session, that session stays in the
  collection, which does not get smaller.
\<close>

theorem closed_session_replaced:
  assumes "poolOk w" and "p \<in> set (pool w addr)" and "IsClosedAt w p"
    and "Dial maxCnt env w addr = (r, w')"
  shows "r \<noteq> Panics \<and>
         (\<forall>cc. r = Returns cc \<longrightarrow>
            sess (stream cc) \<noteq> p \<and>
            length (pool w addr) \<le> length (pool w' addr) \<and>
            (find (underCapacity w) (pool w addr) = Some p \<longrightarrow>
               pool w' addr = swapRemove p (pool w addr) @ [nextObj w] \<and>
               length (pool w' addr) = length (pool w addr) \<and>
               (distinct (pool w addr) \<longrightarrow> p \<notin> set (pool w' addr))) \<and>
            (find (underCapacity w) (pool w addr) \<noteq> Some p \<longrightarrow> p \<in> set (pool w' addr)))"
proof -
  have lp: "live w p" using assms(1,2) by (rule pool_live)
  have pn: "p \<noteq> nextObj w" using lp live_lt by fastforce
  have np: "r \<noteq> Panics" using Dial_poolOk(2) [OF assms(1,4)] .
  have src: "sess (stream cc) \<noteq> p" if "r = Returns cc" for cc
    using assms(1,4)
  proof (cases rule: Dial_cases)
    case (reused cc' s)
    then show ?thesis using that assms(3) by auto
  next
    case (created cc' sl)
    then show ?thesis using that pn by simp
  qed (use that in simp_all)
  have sel: "pool w' addr = swapRemove p (pool w addr) @ [nextObj w] \<and>
             length (pool w' addr) = length (pool w addr) \<and>
             (distinct (pool w addr) \<longrightarrow> p \<notin> set (pool w' addr))"
    if r: "r = Returns cc" and f: "find (underCapacity w) (pool w addr) = Some p" for cc
  proof -
    have e: "pool w' addr = swapRemove p (pool w addr) @ [nextObj w]"
      using Dial_evicts [OF assms(1) f assms(3)] assms(4) r by simp
    have "1 \<le> length (pool w addr)" using assms(2) by (cases "pool w addr") simp_all
    then have l: "length (pool w' addr) = length (pool w addr)"
      unfolding e using swapRemove_length [OF assms(2)] by simp
    have "p \<notin> set (pool w' addr)" if "distinct (pool w addr)"
      unfolding e using swapRemove_distinct(1) [OF that assms(2)] pn by simp
    then show ?thesis using e l by simp
  qed
  have other: "length (pool w addr) \<le> length (pool w' addr) \<and>
               (find (underCapacity w) (pool w addr) \<noteq> Some p \<longrightarrow> p \<in> set (pool w' addr))"
    if r: "r = Returns cc" for cc
  proof (cases "find (underCapacity w) (pool w addr)")
    case None
    then have "pool w' addr = pool w addr @ [nextObj w]"
      using Dial_appends [OF assms(1)] assms(4) r by simp
    then show ?thesis using assms(2) by simp
  next
    case (Some s)
    show ?thesis
    proof (cases "IsClosedAt w s")
      case False
      then have "pool w' addr = pool w addr"
        using Dial_keeps [OF assms(1) Some] assms(4) r by simp
      then show ?thesis using assms(2) by simp
    next
      case True
      have s_in: "s \<in> set (pool w addr)" using Some by (auto dest: find_in_pool)
      then have "1 \<le> length (pool w addr)" by (cases "pool w addr") simp_all
      moreover have e: "pool w' addr = swapRemove s (pool w addr) @ [nextObj w]"
        using Dial_evicts [OF assms(1) Some True] assms(4) r by simp
      ultimately have "length (pool w addr) \<le> length (pool w' addr)"
        using swapRemove_length [OF s_in] by simp
      moreover have "p \<in> set (pool w' addr)" if "s \<noteq> p"
        unfolding e using swapRemove_keeps [OF assms(2), of s] that by simp
      ultimately show ?thesis using Some by auto
    qed
  qed
  show ?thesis using np src sel other by blast
qed

theorem closed_session_replaced_witness:
  "poolOk poolStale \<and> 1 \<in> set (pool poolStale ''x'') \<and> IsClosedAt poolStale 1 \<and>
   pool poolStale ''x'' = [1, 2] \<and>
   fst (Dial 2 (okEnv 2 3) poolStale ''x'') =
     Returns \<lparr>Conn = 8, stream = \<lparr>sess = 3, streamId = 3\<rparr>\<rparr> \<and>
   pool (snd (Dial 2 (okEnv 2 3) poolStale ''x'')) ''x'' = [2, 3] \<and>
   1 \<notin> set (pool (snd (Dial 2 (okEnv 2 3) poolStale ''x'')) ''x'')"
proof -
  have d: "Dial 2 (okEnv 2 3) poolStale ''x'' =
      (Returns \<lparr>Conn = 8, stream = \<lparr>sess = 3, streamId = 3\<rparr>\<rparr>,
       snd (Dial 2 (okEnv 2 3) poolStale ''x''))"
    by (simp add: dial_eval)
  have v: "1 \<in> set (pool poolStale ''x'')" "IsClosedAt poolStale 1"
    "find (underCapacity poolStale) (pool poolStale ''x'') = Some 1"
    "pool poolStale ''x'' = [1, 2]" "nextObj poolStale = 3"
    by (simp_all add: dial_eval)
  have f: "fst (Dial 2 (okEnv 2 3) poolStale ''x'') =
      Returns \<lparr>Conn = 8, stream = \<lparr>sess = 3, streamId = 3\<rparr>\<rparr>"
    by (simp add: dial_eval)
  have sr: "swapRemove 1 [1, 2] = [2]" by (simp add: swapRemove_def)
  have "pool (snd (Dial 2 (okEnv 2 3) poolStale ''x'')) ''x'' = [2, 3]"
    using closed_session_replaced [OF poolStale_poolOk v(1) v(2) d] v(3,4,5) sr by simp
  then show ?thesis using poolStale_poolOk v f by simp
qed



end
